theory Spec2Isabelle
  imports Main "HOL-Library.AList" "HOL-Library.Sublist"
begin

section \<open>Transcript monitor: data model\<close>

text \<open>
  The monitor (\<^verbatim>\<open>TranscriptMonitor\<close>) and its checkpoint store
  (\<^verbatim>\<open>PersistedStateStore\<close>) keep their tables in JavaScript \<^verbatim>\<open>Map\<close>s.
  A \<^verbatim>\<open>Map\<close> iterates in insertion order, \<^verbatim>\<open>set\<close> on a present key replaces the
  value in place and on an absent key appends, \<^verbatim>\<open>delete\<close> removes the key: an
  association list with \<open>AList.update\<close>, \<open>AList.delete\<close> and \<open>map_of\<close>.
  \<^verbatim>\<open>Date.now()\<close> is an explicit argument \<open>now\<close> (epoch milliseconds).

  Text that is read, matched and sent (file lines, block text, terminal captures, messages)
  is a JavaScript string: a sequence of UTF-16 code units, \<open>ustring\<close>, so that
  \<^verbatim>\<open>length\<close> counts what \<^verbatim>\<open>.length\<close> counts. Identifiers that are only compared
  and concatenated (uuids, session ids, paths, tool names, roles) are \<open>string\<close>.
\<close>

type_synonym ustring = "nat list"

definition map_has :: "'k \<Rightarrow> ('k \<times> 'v) list \<Rightarrow> bool" where
  "map_has k m = (map_of m k \<noteq> None)"

text \<open>\<^verbatim>\<open>const firstKey = m.keys().next().value; if (firstKey) m.delete(firstKey)\<close>:
  the empty string is falsy, so an empty first key is not evicted.\<close>

definition evictFirst :: "(string \<times> 'v) list \<Rightarrow> (string \<times> 'v) list" where
  "evictFirst m =
     (case m of [] \<Rightarrow> m
      | (firstKey, v) # rest \<Rightarrow> if firstKey \<noteq> [] then AList.delete firstKey m else m)"

record file_state =
  position :: nat
  lastSize :: nat
  mtime :: "int option"
  sessionId :: "string option"

record persisted_state_store =
  processedUuids :: "(string \<times> int) list"
  filePositions :: "(string \<times> file_state) list"
  dirty :: bool

definition uuidTtl :: int where
  "uuidTtl = 3600000"

subsection \<open>PersistedStateStore\<close>

definition hasUuid :: "string \<Rightarrow> int \<Rightarrow> persisted_state_store \<Rightarrow> bool \<times> persisted_state_store" where
  "hasUuid uuid now st =
     (case map_of (processedUuids st) uuid of
        None \<Rightarrow> (False, st)
      | Some timestamp \<Rightarrow>
          if timestamp = 0 then (False, st)
          else if now - timestamp > uuidTtl
          then (False, st\<lparr>processedUuids := AList.delete uuid (processedUuids st), dirty := True\<rparr>)
          else (True, st))"

definition addUuid :: "string \<Rightarrow> int \<Rightarrow> persisted_state_store \<Rightarrow> persisted_state_store" where
  "addUuid uuid now st =
     (let m = AList.update uuid now (processedUuids st)
      in st\<lparr>processedUuids := (if length m > 10000 then evictFirst m else m), dirty := True\<rparr>)"

text \<open>\<^verbatim>\<open>`${sessionId || 'unknown'}:${filePath}`\<close>\<close>

definition makeFileKey :: "string option \<Rightarrow> string \<Rightarrow> string" where
  "makeFileKey sid filePath =
     (case sid of None \<Rightarrow> ''unknown'' | Some s \<Rightarrow> if s = [] then ''unknown'' else s) @ '':'' @ filePath"

definition getFilePosition :: "string option \<Rightarrow> string \<Rightarrow> persisted_state_store \<Rightarrow> file_state option" where
  "getFilePosition sid filePath st = map_of (filePositions st) (makeFileKey sid filePath)"

definition setFilePosition ::
  "string option \<Rightarrow> string \<Rightarrow> nat \<Rightarrow> nat \<Rightarrow> int \<Rightarrow> persisted_state_store \<Rightarrow> persisted_state_store" where
  "setFilePosition sid filePath pos lsize mt st =
     st\<lparr>filePositions :=
          AList.update (makeFileKey sid filePath)
            \<lparr>position = pos, lastSize = lsize, mtime = Some mt, sessionId = sid\<rparr> (filePositions st),
        dirty := True\<rparr>"

text \<open>\<^verbatim>\<open>clearSessionFiles\<close>: every key that starts with \<^verbatim>\<open>`${sessionId}:`\<close> is deleted;
  a falsy session id returns at once. \<^verbatim>\<open>dirty\<close> is set only when a key was deleted.\<close>

definition clearSessionFiles :: "string option \<Rightarrow> persisted_state_store \<Rightarrow> persisted_state_store" where
  "clearSessionFiles sid st =
     (case sid of None \<Rightarrow> st
      | Some s \<Rightarrow>
          if s = [] then st
          else st\<lparr>filePositions := filter (\<lambda>(key, v). \<not> prefix (s @ '':'') key) (filePositions st),
                  dirty := (dirty st \<or> (\<exists>(key, v) \<in> set (filePositions st). prefix (s @ '':'') key))\<rparr>)"

definition clear :: "persisted_state_store \<Rightarrow> persisted_state_store" where
  "clear st = st\<lparr>processedUuids := [], filePositions := [], dirty := True\<rparr>"


section \<open>Strings\<close>

text \<open>An ASCII literal as code units.\<close>

definition asc :: "string \<Rightarrow> ustring" where
  "asc s = map of_char s"

text \<open>\<^verbatim>\<open>String.prototype.includes\<close>.\<close>

fun str_includes :: "'a list \<Rightarrow> 'a list \<Rightarrow> bool" where
  "str_includes sub [] = (sub = [])"
| "str_includes sub (c # cs) = (prefix sub (c # cs) \<or> str_includes sub cs)"

text \<open>ECMAScript white space and line terminators (what \<^verbatim>\<open>trim\<close> strips and
  \<^verbatim>\<open>\s\<close> matches); \<^verbatim>\<open>.\<close> matches everything but the line terminators; \<^verbatim>\<open>\d\<close>.\<close>

definition isLineTerminator :: "nat \<Rightarrow> bool" where
  "isLineTerminator c = (c = 0x0A \<or> c = 0x0D \<or> c = 0x2028 \<or> c = 0x2029)"

definition isSpace :: "nat \<Rightarrow> bool" where
  "isSpace c =
     (c = 0x09 \<or> c = 0x0B \<or> c = 0x0C \<or> c = 0x20 \<or> c = 0xA0 \<or> c = 0x1680 \<or>
      (0x2000 \<le> c \<and> c \<le> 0x200A) \<or> c = 0x202F \<or> c = 0x205F \<or> c = 0x3000 \<or> c = 0xFEFF \<or>
      isLineTerminator c)"

definition isDigit :: "nat \<Rightarrow> bool" where
  "isDigit c = (48 \<le> c \<and> c \<le> 57)"

definition trim :: "ustring \<Rightarrow> ustring" where
  "trim s = rev (dropWhile isSpace (rev (dropWhile isSpace s)))"

text \<open>\<^verbatim>\<open>s.split(sep)\<close> for a one-unit separator: never empty, \<^verbatim>\<open>"".split(sep) = [""]\<close>.\<close>

fun split_on :: "'a \<Rightarrow> 'a list \<Rightarrow> 'a list list" where
  "split_on sep [] = [[]]"
| "split_on sep (c # cs) =
     (if c = sep then [] # split_on sep cs
      else (case split_on sep cs of [] \<Rightarrow> [[c]] | x # xs \<Rightarrow> (c # x) # xs))"

text \<open>\<^verbatim>\<open>parts.join(sep)\<close>.\<close>

fun joinWith :: "'a list \<Rightarrow> 'a list list \<Rightarrow> 'a list" where
  "joinWith sep [] = []"
| "joinWith sep [x] = x"
| "joinWith sep (x # y # ys) = x @ sep @ joinWith sep (y # ys)"

text \<open>A number in a template literal: its decimal digits. \<^verbatim>\<open>parseInt(digits, 10)\<close> on a
  run of decimal digits. The numbers here are exact, those of the code are doubles: the
  two agree below \<open>2\<^sup>5\<^sup>3\<close>, which covers every index, count and option number that the
  monitor meets in practice; beyond it \<^verbatim>\<open>parseInt\<close> rounds and the template prints the
  rounded value.\<close>

function showNat :: "nat \<Rightarrow> ustring" where
  "showNat n = (if n < 10 then [48 + n] else showNat (n div 10) @ [48 + n mod 10])"
  by pat_completeness auto
termination
  by (relation "measure id") auto

declare showNat.simps [simp del]

definition parseInt :: "ustring \<Rightarrow> nat" where
  "parseInt ds = foldl (\<lambda>acc d. 10 * acc + (d - 48)) 0 ds"

definition truthy :: "'a list option \<Rightarrow> bool" where
  "truthy s = (case s of None \<Rightarrow> False | Some t \<Rightarrow> t \<noteq> [])"

definition orEmpty :: "'a list option \<Rightarrow> 'a list" where
  "orEmpty s = (case s of None \<Rightarrow> [] | Some t \<Rightarrow> t)"

section \<open>Message templates\<close>

text \<open>\<^verbatim>\<open><U+2753> **Claude Code <U+9700><U+8981><U+60A8><U+56DE><U+7B54><U+95EE><U+9898>**<LF><LF>\<close>\<close>

definition lit_ask_banner :: ustring where
  "lit_ask_banner =
     [0x2753, 32, 42, 42, 67, 108, 97, 117, 100, 101, 32, 67, 111, 100, 101, 32, 0x9700, 0x8981,
      0x60A8, 0x56DE, 0x7B54, 0x95EE, 0x9898, 42, 42, 0x000A, 0x000A]"

text \<open>\<^verbatim>\<open>**<U+8BF7><U+9009><U+62E9><U+FF1A>**<LF><LF>\<close>\<close>

definition lit_ask_choose :: ustring where
  "lit_ask_choose =
     [42, 42, 0x8BF7, 0x9009, 0x62E9, 0xFF1A, 42, 42, 0x000A, 0x000A]"

text \<open>\<^verbatim>\<open><LF>   <U+2514><U+2500> \<close>\<close>

definition lit_ask_descr :: ustring where
  "lit_ask_descr =
     [0x000A, 32, 32, 32, 0x2514, 0x2500, 32]"

text \<open>\<^verbatim>\<open><LF><U+D83D><U+DCA1> <U+56DE><U+590D><U+6570><U+5B57> \<close>\<close>

definition lit_ask_reply :: ustring where
  "lit_ask_reply =
     [0x000A, 0xD83D, 0xDCA1, 32, 0x56DE, 0x590D, 0x6570, 0x5B57, 32]"

text \<open>\<^verbatim>\<open><U+FF08><U+53EF><U+591A><U+9009><U+FF0C><U+7528><U+9017><U+53F7><U+5206><U+9694><U+FF09>\<close>\<close>

definition lit_ask_multi :: ustring where
  "lit_ask_multi =
     [0xFF08, 0x53EF, 0x591A, 0x9009, 0xFF0C, 0x7528, 0x9017, 0x53F7, 0x5206, 0x9694, 0xFF09]"

text \<open>\<^verbatim>\<open><U+9009><U+62E9>\<close>\<close>

definition lit_ask_single :: ustring where
  "lit_ask_single =
     [0x9009, 0x62E9]"

text \<open>\<^verbatim>\<open><U+786E><U+8BA4>\<close>\<close>

definition lit_ask_confirm :: ustring where
  "lit_ask_confirm =
     [0x786E, 0x8BA4]"

text \<open>\<^verbatim>\<open><U+D83D><U+DCCB> **\<close>\<close>

definition lit_plan_icon :: ustring where
  "lit_plan_icon =
     [0xD83D, 0xDCCB, 32, 42, 42]"

text \<open>\<^verbatim>\<open>**<U+D83D><U+DCC4> <U+8BA1><U+5212><U+5185><U+5BB9>** (`\<close>\<close>

definition lit_plan_content_head :: ustring where
  "lit_plan_content_head =
     [42, 42, 0xD83D, 0xDCC4, 32, 0x8BA1, 0x5212, 0x5185, 0x5BB9, 42, 42, 32, 40, 96]"

text \<open>\<^verbatim>\<open><LF><LF>... (<U+8BA1><U+5212><U+8FC7><U+957F><U+FF0C><U+5DF2><U+622A><U+65AD><U+FF0C><U+5171> \<close>\<close>

definition lit_plan_truncated :: ustring where
  "lit_plan_truncated =
     [0x000A, 0x000A, 46, 46, 46, 32, 40, 0x8BA1, 0x5212, 0x8FC7, 0x957F, 0xFF0C, 0x5DF2,
      0x622A, 0x65AD, 0xFF0C, 0x5171, 32]"

text \<open>\<^verbatim>\<open> <U+5B57><U+7B26>)\<close>\<close>

definition lit_plan_chars :: ustring where
  "lit_plan_chars =
     [32, 0x5B57, 0x7B26, 41]"

text \<open>\<^verbatim>\<open><U+D83D><U+DCC4> <U+8BA1><U+5212><U+6587><U+4EF6>: `\<close>\<close>

definition lit_plan_file :: ustring where
  "lit_plan_file =
     [0xD83D, 0xDCC4, 32, 0x8BA1, 0x5212, 0x6587, 0x4EF6, 58, 32, 96]"

text \<open>\<^verbatim>\<open>**<U+8BF7><U+9009><U+62E9><U+4E0B><U+4E00><U+6B65><U+64CD><U+4F5C><U+FF1A>**<LF><LF>\<close>\<close>

definition lit_plan_choose :: ustring where
  "lit_plan_choose =
     [42, 42, 0x8BF7, 0x9009, 0x62E9, 0x4E0B, 0x4E00, 0x6B65, 0x64CD, 0x4F5C, 0xFF1A, 42, 42,
      0x000A, 0x000A]"

text \<open>\<^verbatim>\<open><LF><U+D83D><U+DCA1> <U+56DE><U+590D><U+6570><U+5B57><U+9009><U+62E9><U+64CD><U+4F5C>\<close>\<close>

definition lit_plan_reply :: ustring where
  "lit_plan_reply =
     [0x000A, 0xD83D, 0xDCA1, 32, 0x56DE, 0x590D, 0x6570, 0x5B57, 0x9009, 0x62E9, 0x64CD, 0x4F5C]"

text \<open>\<^verbatim>\<open><U+D83D><U+DCCB> <U+8BA1><U+5212><U+5DF2><U+751F><U+6210>\<close>\<close>

definition lit_plan_header :: ustring where
  "lit_plan_header =
     [0xD83D, 0xDCCB, 32, 0x8BA1, 0x5212, 0x5DF2, 0x751F, 0x6210]"

text \<open>\<^verbatim>\<open>Claude <U+5DF2><U+5B8C><U+6210><U+8BA1><U+5212><U+7F16><U+5199><U+FF0C><U+8BF7><U+9009><U+62E9><U+4E0B><U+4E00><U+6B65><U+64CD><U+4F5C><U+FF1A>\<close>\<close>

definition lit_plan_text :: ustring where
  "lit_plan_text =
     [67, 108, 97, 117, 100, 101, 32, 0x5DF2, 0x5B8C, 0x6210, 0x8BA1, 0x5212, 0x7F16, 0x5199,
      0xFF0C, 0x8BF7, 0x9009, 0x62E9, 0x4E0B, 0x4E00, 0x6B65, 0x64CD, 0x4F5C, 0xFF1A]"

section \<open>Log records and the interaction parser\<close>

text \<open>
  One decoded line of the transcript:
  \<^verbatim>\<open>{ type, uuid, message: { role, content: [ {type:"text", text} | {type:"tool_use", name, input} ] } }\<close>.
  Fields the code tests for truthiness are options; \<open>content\<close> may be absent,
  something that is not an array, or an array of blocks. The \<^verbatim>\<open>input.questions\<close>
  field of a tool-use block is absent (falsy), not an array, or an array whose entries
  are objects or \<^verbatim>\<open>null\<close>.
\<close>

record ask_option =
  label :: ustring
  description :: "ustring option"

record raw_question =
  rq_question :: "ustring option"
  rq_header :: "ustring option"
  rq_options :: "ask_option list option"
  rq_multiSelect :: "bool option"

datatype question_entry = QNull | QEntry raw_question

datatype questions_field = QMissing | QNotArray | QArray "question_entry list"

datatype block =
    TextBlock "ustring option"
  | ToolUse string "questions_field option"
  | OtherBlock string

datatype content = ContentMissing | ContentNotArray | ContentArray "block list"

record message =
  role :: string
  content :: content

record log_record =
  rtype :: string
  uuid :: "string option"
  rmessage :: "message option"

record question =
  q_text :: ustring
  q_header :: ustring
  q_options :: "ask_option list"
  q_multiSelect :: bool

record plan_option =
  num :: nat
  plabel :: ustring

record plan_question =
  pq_header :: ustring
  pq_text :: ustring
  pq_options :: "plan_option list"

datatype interaction =
    AskUserQuestion "string option" question
  | ExitPlanMode plan_question "ustring option"

datatype log_level = Debug | Info | Warn | Error | Transcript | Feishu

datatype send_result = SendOk | SendFailed | SendThrew

text \<open>
  The observable effects of the monitor, in order: a messenger call with what it was
  given and how it ended, the pacing delay, the interaction callback, a read of a file
  from an offset, and the log lines of the warning and error paths (the informational
  \<^verbatim>\<open>Logger.debug\<close>, \<^verbatim>\<open>Logger.transcript\<close> and \<^verbatim>\<open>Logger.feishu\<close> lines of the normal
  paths are not recorded).
\<close>

datatype event =
    Log log_level
  | SendText ustring send_result
  | SendAskUserQuestion question send_result
  | Sleep nat
  | Callback interaction
  | ReadNewLines string nat

text \<open>The array under \<^verbatim>\<open>data.message.content\<close>, when the guards
  \<^verbatim>\<open>!data || !data.message || !data.message.content\<close> and \<^verbatim>\<open>Array.isArray\<close> let it through.\<close>

definition contentArray :: "log_record \<Rightarrow> block list option" where
  "contentArray data =
     (case rmessage data of None \<Rightarrow> None
      | Some m \<Rightarrow> (case content m of ContentArray bs \<Rightarrow> Some bs | _ \<Rightarrow> None))"

fun isAskBlock :: "block \<Rightarrow> bool" where
  "isAskBlock (ToolUse n i) = (n = ''AskUserQuestion'')"
| "isAskBlock _ = False"

fun isToolUseBlock :: "block \<Rightarrow> bool" where
  "isToolUseBlock (ToolUse n i) = True"
| "isToolUseBlock _ = False"

fun isThinkingBlock :: "block \<Rightarrow> bool" where
  "isThinkingBlock (TextBlock t) =
     (truthy t \<and>
      (prefix (asc ''<thinking>'') (orEmpty t) \<or> str_includes (asc ''[SUGGESTION MODE:]'') (orEmpty t) \<or>
       str_includes (asc ''[SKILL MODE:]'') (orEmpty t) \<or> str_includes (asc ''[INTERNAL]'') (orEmpty t)))"
| "isThinkingBlock _ = False"

fun hasTextBlock :: "block \<Rightarrow> bool" where
  "hasTextBlock (TextBlock t) = (truthy t \<and> trim (orEmpty t) \<noteq> [])"
| "hasTextBlock _ = False"

definition isAskUserQuestion :: "log_record \<Rightarrow> bool" where
  "isAskUserQuestion data = (case contentArray data of None \<Rightarrow> False | Some bs \<Rightarrow> list_ex isAskBlock bs)"

definition hasToolUse :: "log_record \<Rightarrow> bool" where
  "hasToolUse data = (case contentArray data of None \<Rightarrow> False | Some bs \<Rightarrow> list_ex isToolUseBlock bs)"

definition hasThinking :: "log_record \<Rightarrow> bool" where
  "hasThinking data = (case contentArray data of None \<Rightarrow> False | Some bs \<Rightarrow> list_ex isThinkingBlock bs)"

definition isPureText :: "log_record \<Rightarrow> bool" where
  "isPureText data =
     (case contentArray data of None \<Rightarrow> False
      | Some bs \<Rightarrow>
          if \<not> list_ex hasTextBlock bs then False
          else if hasToolUse data then False
          else if hasThinking data then False
          else True)"

text \<open>\<^verbatim>\<open>parseAskUserQuestion\<close>, with what it logs. A \<^verbatim>\<open>null\<close> first entry makes the
  property access throw; the \<^verbatim>\<open>catch\<close> logs an error and returns \<^verbatim>\<open>null\<close>.\<close>

definition parseAskUserQuestion :: "log_record \<Rightarrow> interaction option \<times> event list" where
  "parseAskUserQuestion data =
     (if \<not> isAskUserQuestion data then (None, [])
      else case find isAskBlock (orEmpty (contentArray data)) of
          Some (ToolUse n (Some (QArray (QEntry q # rest)))) \<Rightarrow>
            (Some (AskUserQuestion (uuid data)
               \<lparr>q_text = orEmpty (rq_question q), q_header = orEmpty (rq_header q),
                q_options = (case rq_options q of None \<Rightarrow> [] | Some os \<Rightarrow> os),
                q_multiSelect = (case rq_multiSelect q of None \<Rightarrow> False | Some b \<Rightarrow> b)\<rparr>), [])
        | Some (ToolUse n (Some (QArray (QNull # rest)))) \<Rightarrow> (None, [Log Error])
        | _ \<Rightarrow> (None, [Log Warn]))"

text \<open>\<^verbatim>\<open>parse(data)\<close> as \<^verbatim>\<open>shouldSendMessage\<close> calls it: without terminal content, so
  that only the AskUserQuestion branch can apply.\<close>

definition parse :: "log_record \<Rightarrow> interaction option \<times> event list" where
  "parse data = (if isAskUserQuestion data then parseAskUserQuestion data else (None, []))"

record send_decision =
  send :: bool
  sd_interaction :: "interaction option"
  pureText :: bool

definition shouldSendMessage :: "log_record \<Rightarrow> send_decision \<times> event list" where
  "shouldSendMessage data =
     (case parse data of
        (Some i, evs) \<Rightarrow> (\<lparr>send = True, sd_interaction = Some i, pureText = False\<rparr>, evs)
      | (None, evs) \<Rightarrow>
          if isPureText data then (\<lparr>send = True, sd_interaction = None, pureText = True\<rparr>, evs)
          else (\<lparr>send = False, sd_interaction = None, pureText = False\<rparr>, evs))"

fun textOf :: "block \<Rightarrow> ustring option" where
  "textOf (TextBlock t) = (if truthy t then t else None)"
| "textOf _ = None"

definition extractText :: "log_record \<Rightarrow> ustring" where
  "extractText data =
     (case contentArray data of None \<Rightarrow> []
      | Some bs \<Rightarrow> joinWith [0x0A] (List.map_filter textOf bs))"

section \<open>The incremental reader\<close>

text \<open>
  \<^verbatim>\<open>buffer.toString('utf-8', 0, bytesRead)\<close>: the bytes of one chunk decoded on their own.
  An ill-formed or truncated sequence decodes to U+FFFD, one for each maximal subpart, and
  decoding resumes at the offending byte; a code point beyond the basic plane becomes a
  surrogate pair. Bytes are natural numbers below 256.
\<close>

definition isCont :: "nat \<Rightarrow> bool" where
  "isCont b = (0x80 \<le> b \<and> b \<le> 0xBF)"

definition surrogates :: "nat \<Rightarrow> ustring" where
  "surrogates cp = [0xD800 + (cp - 0x10000) div 0x400, 0xDC00 + (cp - 0x10000) mod 0x400]"

function utf8_decode :: "nat list \<Rightarrow> ustring" where
  "utf8_decode [] = []"
| "utf8_decode (b # bs) =
     (if b < 0x80 then b # utf8_decode bs
      else if 0xC2 \<le> b \<and> b \<le> 0xDF then
        (case bs of [] \<Rightarrow> [0xFFFD]
         | c # r1 \<Rightarrow>
             if isCont c then ((b - 0xC0) * 0x40 + (c - 0x80)) # utf8_decode r1
             else 0xFFFD # utf8_decode bs)
      else if 0xE0 \<le> b \<and> b \<le> 0xEF then
        (case bs of [] \<Rightarrow> [0xFFFD]
         | c # r1 \<Rightarrow>
             if (if b = 0xE0 then 0xA0 else 0x80) \<le> c \<and> c \<le> (if b = 0xED then 0x9F else 0xBF) then
               (case r1 of [] \<Rightarrow> [0xFFFD]
                | d # r2 \<Rightarrow>
                    if isCont d
                    then ((b - 0xE0) * 0x1000 + (c - 0x80) * 0x40 + (d - 0x80)) # utf8_decode r2
                    else 0xFFFD # utf8_decode r1)
             else 0xFFFD # utf8_decode bs)
      else if 0xF0 \<le> b \<and> b \<le> 0xF4 then
        (case bs of [] \<Rightarrow> [0xFFFD]
         | c # r1 \<Rightarrow>
             if (if b = 0xF0 then 0x90 else 0x80) \<le> c \<and> c \<le> (if b = 0xF4 then 0x8F else 0xBF) then
               (case r1 of [] \<Rightarrow> [0xFFFD]
                | d # r2 \<Rightarrow>
                    if isCont d then
                      (case r2 of [] \<Rightarrow> [0xFFFD]
                       | e # r3 \<Rightarrow>
                           if isCont e
                           then surrogates ((b - 0xF0) * 0x40000 + (c - 0x80) * 0x1000 +
                                            (d - 0x80) * 0x40 + (e - 0x80)) @ utf8_decode r3
                           else 0xFFFD # utf8_decode r2)
                    else 0xFFFD # utf8_decode r1)
             else 0xFFFD # utf8_decode bs)
      else 0xFFFD # utf8_decode bs)"
  by pat_completeness auto
termination
  by (relation "measure length") auto

declare utf8_decode.simps [simp del]

definition CHUNK_SIZE :: nat where
  "CHUNK_SIZE = 8192"

definition nonBlank :: "ustring \<Rightarrow> bool" where
  "nonBlank line = (length (trim line) > 0)"

text \<open>
  The \<^verbatim>\<open>while (remaining > 0)\<close> loop of \<^verbatim>\<open>readNewLines\<close>. \<^verbatim>\<open>fs.readSync\<close> fills the
  buffer with the bytes of the file from \<open>currentPosition\<close>, at most \<open>readSize\<close> of them;
  a read of zero bytes leaves the loop. The loop returns the lines and the pending
  \<open>partialLine\<close>.
\<close>

function readLoop ::
  "nat list \<Rightarrow> nat \<Rightarrow> nat \<Rightarrow> ustring \<Rightarrow> ustring list \<Rightarrow> ustring list \<times> ustring" where
  "readLoop file remaining currentPosition partialLine lines =
     (if remaining > 0 then
        (let readSize = min CHUNK_SIZE remaining;
             buffer = take readSize (drop currentPosition file);
             bytesRead = length buffer
         in if bytesRead = 0 then (lines, partialLine)
            else
              (let chunk = utf8_decode buffer;
                   fullChunk = partialLine @ chunk;
                   chunkLines = split_on 0x0A fullChunk
               in readLoop file (remaining - bytesRead) (currentPosition + bytesRead)
                    (last chunkLines) (lines @ filter nonBlank (butlast chunkLines))))
      else (lines, partialLine))"
  by pat_completeness auto
termination
  by (relation "measure (\<lambda>(file, remaining, currentPosition, partialLine, lines). remaining)")
     (auto simp: CHUNK_SIZE_def)

declare readLoop.simps [simp del]

text \<open>
  \<^verbatim>\<open>readNewLines(filePath, fromPosition)\<close> on the file the path names at that moment
  (\<open>None\<close>: \<^verbatim>\<open>statSync\<close> throws, the \<^verbatim>\<open>catch\<close> logs and returns no lines).
\<close>

definition readNewLines :: "nat list option \<Rightarrow> nat \<Rightarrow> ustring list \<times> event list" where
  "readNewLines file fromPosition =
     (case file of
        None \<Rightarrow> ([], [Log Error])
      | Some bytes \<Rightarrow>
          (let currentSize = length bytes
           in if fromPosition \<ge> currentSize then ([], [])
              else
                (case readLoop bytes (currentSize - fromPosition) fromPosition [] [] of
                   (lines, partialLine) \<Rightarrow>
                     (if nonBlank partialLine then lines @ [partialLine] else lines, []))))"

subsection \<open>Stating what the reader returns\<close>

text \<open>
  The bytes decoded chunk by chunk, as the loop decodes them; the text of the whole range
  is \<open>utf8_decode\<close> of it, and the two agree when no multi-byte sequence straddles a
  chunk boundary. The complete newline-delimited records of a text are its non-blank
  segments before a line feed; what follows the last line feed is the trailing fragment.
\<close>

function decodeChunks :: "nat \<Rightarrow> nat list \<Rightarrow> ustring" where
  "decodeChunks n xs =
     (if n = 0 \<or> xs = [] then [] else utf8_decode (take n xs) @ decodeChunks n (drop n xs))"
  by pat_completeness auto
termination
  by (relation "measure (\<lambda>(n, xs). length xs)") auto

declare decodeChunks.simps [simp del]

definition completeRecords :: "ustring \<Rightarrow> ustring list" where
  "completeRecords s = filter nonBlank (butlast (split_on 0x0A s))"

definition trailingFragment :: "ustring \<Rightarrow> ustring" where
  "trailingFragment s = last (split_on 0x0A s)"

section \<open>Splitting and delivering a message\<close>

text \<open>\<^verbatim>\<open>text.split(/\n\n+/)\<close>: a run of two or more line feeds separates paragraphs; a
  single line feed stays inside its paragraph.\<close>

function splitParagraphs :: "ustring \<Rightarrow> ustring list" where
  "splitParagraphs [] = [[]]"
| "splitParagraphs (c # cs) =
     (if c = 0x0A \<and> take 1 cs = [0x0A]
      then [] # splitParagraphs (dropWhile (\<lambda>d. d = 0x0A) cs)
      else (case splitParagraphs cs of [] \<Rightarrow> [[c]] | x # xs \<Rightarrow> (c # x) # xs))"
  by pat_completeness auto
termination
  by (relation "measure length") (auto simp: less_Suc_eq_le length_dropWhile_le)

declare splitParagraphs.simps [simp del]

text \<open>
  \<^verbatim>\<open>for (let i = 0; i < line.length; i += maxLength) chunks.push(line.slice(i, i + maxLength))\<close>.
  With \<^verbatim>\<open>maxLength = 0\<close> the index never advances and the loop does not return: \<open>None\<close>.
\<close>

partial_function (option) hardSplit :: "nat \<Rightarrow> ustring \<Rightarrow> nat \<Rightarrow> ustring list \<Rightarrow> ustring list option" where
  "hardSplit maxLength line i chunks =
     (if i < length line
      then hardSplit maxLength line (i + maxLength) (chunks @ [take maxLength (drop i line)])
      else Some chunks)"

text \<open>The loop over the lines of an over-long paragraph, on \<open>(chunks, lineChunk)\<close>.\<close>

fun lineLoop :: "nat \<Rightarrow> ustring list \<Rightarrow> ustring list \<Rightarrow> ustring \<Rightarrow> (ustring list \<times> ustring) option" where
  "lineLoop maxLength [] chunks lineChunk = Some (chunks, lineChunk)"
| "lineLoop maxLength (line # lines) chunks lineChunk =
     (let testLine = lineChunk @ (if lineChunk \<noteq> [] then [0x0A] else []) @ line
      in if length testLine \<le> maxLength then lineLoop maxLength lines chunks testLine
         else
           (let chunks1 = (if lineChunk \<noteq> [] then chunks @ [lineChunk] else chunks)
            in if length line > maxLength then
                 (case hardSplit maxLength line 0 chunks1 of
                    None \<Rightarrow> None
                  | Some chunks2 \<Rightarrow> lineLoop maxLength lines chunks2 [])
               else lineLoop maxLength lines chunks1 line))"

text \<open>The loop over the paragraphs, on \<open>(chunks, currentChunk)\<close>.\<close>

fun paraLoop :: "nat \<Rightarrow> ustring list \<Rightarrow> ustring list \<Rightarrow> ustring \<Rightarrow> (ustring list \<times> ustring) option" where
  "paraLoop maxLength [] chunks currentChunk = Some (chunks, currentChunk)"
| "paraLoop maxLength (para # paras) chunks currentChunk =
     (let testChunk = currentChunk @ (if currentChunk \<noteq> [] then [0x0A, 0x0A] else []) @ para
      in if length testChunk \<le> maxLength then paraLoop maxLength paras chunks testChunk
         else
           (let chunks1 = (if currentChunk \<noteq> [] then chunks @ [currentChunk] else chunks)
            in if length para > maxLength then
                 (case lineLoop maxLength (split_on 0x0A para) chunks1 [] of
                    None \<Rightarrow> None
                  | Some (chunks2, lineChunk) \<Rightarrow> paraLoop maxLength paras chunks2 lineChunk)
               else paraLoop maxLength paras chunks1 para))"

definition splitMessage :: "ustring \<Rightarrow> nat \<Rightarrow> ustring list option" where
  "splitMessage text maxLength =
     (if length text \<le> maxLength then Some [text]
      else
        (case paraLoop maxLength (splitParagraphs text) [] [] of
           None \<Rightarrow> None
         | Some (chunks, currentChunk) \<Rightarrow>
             (let chunks1 = (if currentChunk \<noteq> [] then chunks @ [currentChunk] else chunks)
              in Some (if length chunks1 > 0 then chunks1 else [take maxLength text]))))"

text \<open>
  For stating what a split keeps. The text with every run of two or more line feeds
  replaced by exactly two (one blank line); and the string that a list of chunks makes
  when it is woven with a list of gaps, one before each chunk and one after the last.
\<close>

function collapseBlank :: "ustring \<Rightarrow> ustring" where
  "collapseBlank [] = []"
| "collapseBlank (c # cs) =
     (if c = 0x0A \<and> take 1 cs = [0x0A]
      then 0x0A # 0x0A # collapseBlank (dropWhile (\<lambda>d. d = 0x0A) cs)
      else c # collapseBlank cs)"
  by pat_completeness auto
termination
  by (relation "measure length") (auto simp: less_Suc_eq_le length_dropWhile_le)

declare collapseBlank.simps [simp del]

fun weave :: "'a list list \<Rightarrow> 'a list list \<Rightarrow> 'a list" where
  "weave [] chunks = concat chunks"
| "weave (g # gaps) [] = g @ concat gaps"
| "weave (g # gaps) (c # chunks) = g @ c @ weave gaps chunks"

definition lineFeedsOnly :: "ustring \<Rightarrow> bool" where
  "lineFeedsOnly g = list_all (\<lambda>x. x = 0x0A) g"

abbreviation wovenWithLineFeeds :: "ustring list \<Rightarrow> ustring \<Rightarrow> bool" where
  "wovenWithLineFeeds chunks s \<equiv>
     \<exists>gaps. length gaps = Suc (length chunks) \<and> list_all lineFeedsOnly gaps \<and> weave gaps chunks = s"

definition MAX_SINGLE_MESSAGE :: nat where
  "MAX_SINGLE_MESSAGE = 15000"

definition SPLIT_THRESHOLD :: nat where
  "SPLIT_THRESHOLD = 12000"

text \<open>The messenger collaborator: what a call does is its result. \<^verbatim>\<open>SendThrew\<close> is a
  rejected promise, \<^verbatim>\<open>SendFailed\<close> a resolved \<^verbatim>\<open>{success: false}\<close>, which the monitor
  does not look at.\<close>

record messenger_adapter =
  sendText :: "ustring \<Rightarrow> send_result"
  sendAskUserQuestion :: "(question \<Rightarrow> send_result) option"

text \<open>\<^verbatim>\<open>`\`[${i + 1}/${chunks.length}]\`\n\n`\<close>\<close>

definition chunkPrefix :: "nat \<Rightarrow> nat \<Rightarrow> ustring" where
  "chunkPrefix i count = asc ''`['' @ showNat (i + 1) @ asc ''/'' @ showNat count @ asc '']`'' @ [0x0A, 0x0A]"

text \<open>The loop over the chunks inside the \<^verbatim>\<open>try\<close>: a throwing send leaves the loop for
  the \<^verbatim>\<open>catch\<close>, which logs; the chunks after it are not sent.\<close>

fun sendChunks :: "(ustring \<Rightarrow> send_result) \<Rightarrow> nat \<Rightarrow> nat \<Rightarrow> ustring list \<Rightarrow> event list" where
  "sendChunks sender count i [] = []"
| "sendChunks sender count i (c # cs) =
     (let payload = (if count > 1 then chunkPrefix i count else []) @ c;
          r = sender payload
      in if r = SendThrew then [SendText payload r, Log Error]
         else SendText payload r #
              (if i + 1 < count then Sleep 300 # sendChunks sender count (i + 1) cs
               else sendChunks sender count (i + 1) cs))"

text \<open>\<^verbatim>\<open>sendToFeishu(text)\<close>. \<^verbatim>\<open>splitMessage(text, 15000)\<close> always returns (lemma
  \<open>splitMessage_returns\<close> below), so its \<open>None\<close> case is never taken.\<close>

definition sendToFeishu :: "messenger_adapter option \<Rightarrow> ustring \<Rightarrow> event list" where
  "sendToFeishu msgr text =
     (case msgr of
        None \<Rightarrow> [Log Warn]
      | Some ms \<Rightarrow>
          if length text \<le> SPLIT_THRESHOLD then
            (let r = sendText ms text
             in if r = SendThrew then [SendText text r, Log Error] else [SendText text r])
          else
            (case splitMessage text MAX_SINGLE_MESSAGE of
               None \<Rightarrow> []
             | Some chunks \<Rightarrow> sendChunks (sendText ms) (length chunks) 0 chunks))"

subsection \<open>Interactions\<close>

text \<open>The numbered option lines of the plain-text rendering of a question.\<close>

fun askOptionLines :: "nat \<Rightarrow> ask_option list \<Rightarrow> ustring" where
  "askOptionLines i [] = []"
| "askOptionLines i (opt # opts) =
     showNat (i + 1) @ asc ''. '' @ label opt @
     (if truthy (description opt) then lit_ask_descr @ orEmpty (description opt) else []) @
     [0x0A] @ askOptionLines (i + 1) opts"

definition askMessage :: "question \<Rightarrow> ustring" where
  "askMessage q =
     lit_ask_banner @
     (if q_header q \<noteq> [] then asc ''**'' @ q_header q @ asc ''**'' @ [0x0A, 0x0A] else []) @
     q_text q @ [0x0A, 0x0A] @
     (if length (q_options q) > 0 then
        lit_ask_choose @ askOptionLines 0 (q_options q) @
        lit_ask_reply @ (if q_multiSelect q then lit_ask_multi else lit_ask_single) @ lit_ask_confirm
      else [])"

text \<open>The interaction callback: whether it throws. Its own \<^verbatim>\<open>try/catch\<close> logs that.\<close>

definition notifyCallback :: "(interaction \<Rightarrow> bool) option \<Rightarrow> interaction \<Rightarrow> event list" where
  "notifyCallback cb i =
     (case cb of None \<Rightarrow> []
      | Some f \<Rightarrow> if f i then [Callback i, Log Error] else [Callback i])"

text \<open>The handlers return their effects and whether they threw.\<close>

definition handleAskUserQuestion ::
  "messenger_adapter option \<Rightarrow> (interaction \<Rightarrow> bool) option \<Rightarrow> string option \<Rightarrow> question \<Rightarrow> event list \<times> bool" where
  "handleAskUserQuestion msgr cb u q =
     (case msgr of
        None \<Rightarrow> ([Log Warn], False)
      | Some ms \<Rightarrow>
          (case sendAskUserQuestion ms of
             Some f \<Rightarrow>
               if f q = SendThrew then ([SendAskUserQuestion q (f q)], True)
               else (SendAskUserQuestion q (f q) # notifyCallback cb (AskUserQuestion u q), False)
           | None \<Rightarrow>
               if sendText ms (askMessage q) = SendThrew
               then ([SendText (askMessage q) SendThrew], True)
               else (SendText (askMessage q) (sendText ms (askMessage q)) #
                     notifyCallback cb (AskUserQuestion u q), False)))"

text \<open>The plan document as the file system shows it at the expanded path.\<close>

datatype plan_read = PlanMissing | PlanUnreadable | PlanContent ustring

definition maxPlanLength :: nat where
  "maxPlanLength = 5000"

text \<open>\<^verbatim>\<open>fullPath\<close>: a leading \<^verbatim>\<open>~/\<close> is replaced by the home directory
  (\<^verbatim>\<open>process.env.HOME || '/home/ubuntu'\<close>).\<close>

definition expandPlanPath :: "ustring option \<Rightarrow> ustring \<Rightarrow> ustring" where
  "expandPlanPath home p =
     (if prefix (asc ''~/'') p
      then (if truthy home then orEmpty home else asc ''/home/ubuntu'') @ asc ''/'' @ drop 2 p
      else p)"

text \<open>\<open>planContent\<close> after the read, with what the read logs.\<close>

definition loadPlan :: "ustring option \<Rightarrow> (ustring \<Rightarrow> plan_read) \<Rightarrow> ustring option \<Rightarrow> ustring option \<times> event list" where
  "loadPlan home readPlan planFilePath =
     (if truthy planFilePath then
        (case readPlan (expandPlanPath home (orEmpty planFilePath)) of
           PlanContent c \<Rightarrow> (Some c, [])
         | PlanMissing \<Rightarrow> (None, [Log Warn])
         | PlanUnreadable \<Rightarrow> (None, [Log Error]))
      else (None, []))"

definition truncatePlan :: "ustring \<Rightarrow> ustring" where
  "truncatePlan planContent =
     (if length planContent > maxPlanLength
      then take maxPlanLength planContent @ lit_plan_truncated @ showNat (length planContent) @ lit_plan_chars
      else planContent)"

fun planOptionLines :: "plan_option list \<Rightarrow> ustring" where
  "planOptionLines [] = []"
| "planOptionLines (opt # opts) = showNat (num opt) @ asc ''. '' @ plabel opt @ [0x0A] @ planOptionLines opts"

definition planMessage :: "plan_question \<Rightarrow> ustring option \<Rightarrow> ustring option \<Rightarrow> ustring" where
  "planMessage q planFilePath planContent =
     lit_plan_icon @ pq_header q @ asc ''**'' @ [0x0A, 0x0A] @
     (if truthy planContent then
        lit_plan_content_head @ orEmpty planFilePath @ asc ''`):'' @ [0x0A, 0x0A] @
        truncatePlan (orEmpty planContent) @ [0x0A, 0x0A]
      else if truthy planFilePath then lit_plan_file @ orEmpty planFilePath @ asc ''`'' @ [0x0A, 0x0A]
      else []) @
     lit_plan_choose @ planOptionLines (pq_options q) @ lit_plan_reply"

definition handleExitPlanMode ::
  "messenger_adapter option \<Rightarrow> (interaction \<Rightarrow> bool) option \<Rightarrow> ustring option \<Rightarrow> (ustring \<Rightarrow> plan_read) \<Rightarrow>
   plan_question \<Rightarrow> ustring option \<Rightarrow> event list \<times> bool" where
  "handleExitPlanMode msgr cb home readPlan q planFilePath =
     (case msgr of
        None \<Rightarrow> ([Log Warn], False)
      | Some ms \<Rightarrow>
          (case loadPlan home readPlan planFilePath of
             (planContent, evs) \<Rightarrow>
               (let msg = planMessage q planFilePath planContent
                in if sendText ms msg = SendThrew then (evs @ [SendText msg SendThrew], True)
                   else (evs @ SendText msg (sendText ms msg) #
                         notifyCallback cb (ExitPlanMode q planFilePath), False))))"

text \<open>\<^verbatim>\<open>handleInteraction\<close>: dispatch on the type; whatever a handler throws is caught
  and logged.\<close>

definition handleInteraction ::
  "messenger_adapter option \<Rightarrow> (interaction \<Rightarrow> bool) option \<Rightarrow> ustring option \<Rightarrow> (ustring \<Rightarrow> plan_read) \<Rightarrow>
   interaction \<Rightarrow> event list" where
  "handleInteraction msgr cb home readPlan i =
     (case (case i of
              AskUserQuestion u q \<Rightarrow> handleAskUserQuestion msgr cb u q
            | ExitPlanMode q p \<Rightarrow> handleExitPlanMode msgr cb home readPlan q p) of
        (evs, threw) \<Rightarrow> if threw then evs @ [Log Error] else evs)"

text \<open>A text without its line feeds: what a split at paragraph and line boundaries
  keeps of the text when it drops the separators.\<close>

abbreviation dropLineFeeds :: "ustring \<Rightarrow> ustring" where
  "dropLineFeeds xs \<equiv> filter (\<lambda>c. c \<noteq> 0x0A) xs"

section \<open>Plan-mode detection on the terminal capture\<close>

definition cursorMark :: nat where
  "cursorMark = 0x276F"

text \<open>\<^verbatim>\<open>(\d+)\.\<close> at the start of a string: the digits and what follows the dot.\<close>

definition numberDot :: "ustring \<Rightarrow> (ustring \<times> ustring) option" where
  "numberDot s =
     (let ds = takeWhile isDigit s; r = dropWhile isDigit s
      in if ds \<noteq> [] \<and> (case r of [] \<Rightarrow> False | c # r1 \<Rightarrow> c = 46) then Some (ds, tl r) else None)"

text \<open>\<^verbatim>\<open>/^\s*<U+276F>\s*\d+\./\<close> and \<^verbatim>\<open>/^\s*\d+\.\s+Yes/\<close> (the literal is a parameter: the
  detector looks for \<^verbatim>\<open>Yes,\<close>, the hash for \<^verbatim>\<open>Yes\<close>) at the start of a string.\<close>

definition cursorOptionAt :: "ustring \<Rightarrow> bool" where
  "cursorOptionAt s =
     (case dropWhile isSpace s of [] \<Rightarrow> False
      | c # r \<Rightarrow> c = cursorMark \<and> numberDot (dropWhile isSpace r) \<noteq> None)"

definition yesOptionAt :: "ustring \<Rightarrow> ustring \<Rightarrow> bool" where
  "yesOptionAt lit s =
     (case numberDot (dropWhile isSpace s) of None \<Rightarrow> False
      | Some (ds, r) \<Rightarrow>
          (case r of [] \<Rightarrow> False | c # r1 \<Rightarrow> isSpace c \<and> prefix lit (dropWhile isSpace r1)))"

text \<open>With the \<^verbatim>\<open>m\<close> flag, \<^verbatim>\<open>^\<close> is the start of the input or the position after a
  line terminator.\<close>

fun afterTerminator :: "(ustring \<Rightarrow> bool) \<Rightarrow> ustring \<Rightarrow> bool" where
  "afterTerminator P [] = False"
| "afterTerminator P (c # cs) = ((isLineTerminator c \<and> P cs) \<or> afterTerminator P cs)"

definition atLineStart :: "(ustring \<Rightarrow> bool) \<Rightarrow> ustring \<Rightarrow> bool" where
  "atLineStart P s = (P s \<or> afterTerminator P s)"

definition isExitPlanMode :: "ustring \<Rightarrow> bool" where
  "isExitPlanMode tmuxContent =
     (if tmuxContent = [] then False
      else
        (let hasPlanPrompt = (str_includes (asc ''written up a plan'') tmuxContent \<and>
                              str_includes (asc ''Would you like to proceed'') tmuxContent);
             hasOptions = (atLineStart cursorOptionAt tmuxContent \<or>
                           atLineStart (yesOptionAt (asc ''Yes,'')) tmuxContent)
         in hasPlanPrompt \<and> hasOptions))"

text \<open>\<^verbatim>\<open>_hashPlanModeContent\<close>: the option lines of the capture, joined by a bar.\<close>

definition hashPlanModeContent :: "ustring \<Rightarrow> ustring" where
  "hashPlanModeContent tmuxContent =
     joinWith (asc ''|'')
       (filter (\<lambda>line. cursorOptionAt line \<or> yesOptionAt (asc ''Yes'') line) (split_on 0x0A tmuxContent))"

text \<open>
  \<^verbatim>\<open>\s+(.+)$\<close> after the dot of an option line: the group. The white space is taken
  greedily; when nothing follows it, the match gives its last unit back to the group.
\<close>

definition optionTail :: "ustring \<Rightarrow> ustring option" where
  "optionTail r =
     (let w = takeWhile isSpace r; rest = dropWhile isSpace r
      in if w = [] then None
         else if rest \<noteq> [] then (if list_ex isLineTerminator rest then None else Some rest)
         else if length w \<ge> 2 \<and> \<not> isLineTerminator (last w) then Some [last w]
         else None)"

definition optionAfter :: "ustring \<Rightarrow> (ustring \<times> ustring) option" where
  "optionAfter s =
     (case numberDot s of None \<Rightarrow> None
      | Some (ds, r) \<Rightarrow> (case optionTail r of None \<Rightarrow> None | Some g \<Rightarrow> Some (ds, g)))"

text \<open>\<^verbatim>\<open>line.match(/<U+276F>\s*(\d+)\.\s+(.+)$/)\<close>: the leftmost cursor mark from which the
  rest of the line matches.\<close>

fun matchWithCursor :: "ustring \<Rightarrow> (ustring \<times> ustring) option" where
  "matchWithCursor [] = None"
| "matchWithCursor (c # cs) =
     (if c = cursorMark then
        (case optionAfter (dropWhile isSpace cs) of
           Some m \<Rightarrow> Some m
         | None \<Rightarrow> matchWithCursor cs)
      else matchWithCursor cs)"

text \<open>\<^verbatim>\<open>line.match(/^\s{3}(\d+)\.\s+(.+)$/)\<close>\<close>

definition matchWithoutCursor :: "ustring \<Rightarrow> (ustring \<times> ustring) option" where
  "matchWithoutCursor line =
     (if length line \<ge> 3 \<and> list_all isSpace (take 3 line) then optionAfter (drop 3 line) else None)"

definition optionOfMatch :: "ustring \<times> ustring \<Rightarrow> plan_option list" where
  "optionOfMatch m =
     (if trim (snd m) \<noteq> [] then [\<lparr>num = parseInt (fst m), plabel = trim (snd m)\<rparr>] else [])"

definition optionsOfLine :: "ustring \<Rightarrow> plan_option list" where
  "optionsOfLine line =
     (case matchWithCursor line of
        Some m \<Rightarrow> optionOfMatch m
      | None \<Rightarrow> (case matchWithoutCursor line of Some m \<Rightarrow> optionOfMatch m | None \<Rightarrow> []))"

text \<open>
  \<^verbatim>\<open>content.match(/ctrl-g to edit in Vim\s+<U+00B7>\s+(.+?\.md)/)\<close>. The group is the
  shortest run of one or more units other than line terminators that \<^verbatim>\<open>.md\<close> follows;
  the white space before it is taken greedily and given back unit by unit.
\<close>

fun lazyMd :: "ustring \<Rightarrow> ustring \<Rightarrow> ustring option" where
  "lazyMd acc [] = None"
| "lazyMd acc (c # cs) =
     (if isLineTerminator c then None
      else if prefix (asc ''.md'') cs then Some (acc @ [c] @ asc ''.md'')
      else lazyMd (acc @ [c]) cs)"

fun backoffMd :: "ustring \<Rightarrow> nat \<Rightarrow> ustring option" where
  "backoffMd r 0 = None"
| "backoffMd r (Suc k) =
     (case lazyMd [] (drop (Suc k) r) of Some g \<Rightarrow> Some g | None \<Rightarrow> backoffMd r k)"

definition planPathAfter :: "ustring \<Rightarrow> ustring option" where
  "planPathAfter s =
     (case dropWhile isSpace s of
        [] \<Rightarrow> None
      | c # r \<Rightarrow>
          if s \<noteq> [] \<and> isSpace (hd s) \<and> c = 0xB7 then backoffMd r (length (takeWhile isSpace r))
          else None)"

fun planFileMatch :: "ustring \<Rightarrow> ustring option" where
  "planFileMatch [] = None"
| "planFileMatch (c # cs) =
     (if prefix (asc ''ctrl-g to edit in Vim'') (c # cs) then
        (case planPathAfter (drop (length ''ctrl-g to edit in Vim'') (c # cs)) of
           Some g \<Rightarrow> Some g
         | None \<Rightarrow> planFileMatch cs)
      else planFileMatch cs)"

definition parseExitPlanMode :: "ustring \<Rightarrow> interaction option" where
  "parseExitPlanMode tmuxContent =
     Some (ExitPlanMode
       \<lparr>pq_header = lit_plan_header, pq_text = lit_plan_text,
        pq_options = concat (map optionsOfLine (split_on 0x0A tmuxContent))\<rparr>
       (case planFileMatch tmuxContent of None \<Rightarrow> None | Some g \<Rightarrow> Some (trim g)))"

section \<open>The monitor\<close>

text \<open>
  One cycle sees the outside world through \<open>cycle_env\<close>: the clock (read once for the
  cycle), the working directory of the tmux pane, the listing of the project directory,
  which paths exist, the listing of a sub-agents directory, each file as it is when
  \<^verbatim>\<open>readNewLines\<close> reads it and its size and modification time when \<^verbatim>\<open>processFile\<close>
  stats it afterwards, \<^verbatim>\<open>JSON.parse\<close>, the terminal capture, and the plan document.
\<close>

datatype 'a fs_result = Missing | Failure | Found 'a

record dirent =
  d_name :: string
  d_isDirectory :: bool
  d_mtime :: int

record cycle_env =
  now :: int
  cwd :: string
  paneCurrentPath :: "string option"
  readdirProject :: "string \<Rightarrow> dirent list fs_result"
  existsSync :: "string \<Rightarrow> bool"
  readdirSubagents :: "string \<Rightarrow> string list option"
  fileAtRead :: "string \<Rightarrow> nat list option"
  statAfter :: "string \<Rightarrow> (nat \<times> int) option"
  jsonParse :: "ustring \<Rightarrow> log_record option"
  tmuxCapture :: "ustring option"
  homeDir :: "ustring option"
  readPlan :: "ustring \<Rightarrow> plan_read"

record monitor =
  messenger :: "messenger_adapter option"
  stateStore :: persisted_state_store
  claudeProjectsPath :: string
  projectPath :: string
  currentProject :: string
  watchedFiles :: "(string \<times> file_state) list"
  processedMessages :: "(string \<times> int) list"
  lastCleanupTime :: int
  currentSessionId :: "string option"
  tmuxSessionName :: "string option"
  lastProjectPathCheck :: int
  isProcessing :: bool
  lastProcessedSessionId :: "string option"
  waitingForNewSession :: bool
  lastSessionCheckTime :: "int option"
  tmuxCommander :: bool
  lastPlanModeCheck :: int
  lastNotifiedPlanModeContent :: "ustring option"
  lastPlanModeNotifyTime :: "int option"
  onInteraction :: "(interaction \<Rightarrow> bool) option"

definition maxProcessedMessages :: nat where
  "maxProcessedMessages = 1000"

definition processedMessagesTTL :: int where
  "processedMessagesTTL = 3600000"

definition projectPathCheckInterval :: int where
  "projectPathCheckInterval = 5000"

definition sessionCheckInterval :: int where
  "sessionCheckInterval = 10000"

definition planModeCheckInterval :: int where
  "planModeCheckInterval = 5000"

subsection \<open>Session discovery\<close>

text \<open>\<^verbatim>\<open>/^[0-9a-f]{8}-[0-9a-f]{4}-[0-9a-f]{4}-[0-9a-f]{4}-[0-9a-f]{12}$/i\<close>\<close>

definition isHexDigit :: "char \<Rightarrow> bool" where
  "isHexDigit c = (c \<in> set ''0123456789abcdefABCDEF'')"

fun hexGroups :: "nat list \<Rightarrow> string \<Rightarrow> bool" where
  "hexGroups [] s = (s = [])"
| "hexGroups [n] s = (length s = n \<and> list_all isHexDigit s)"
| "hexGroups (n # ns) s =
     (length (take n s) = n \<and> list_all isHexDigit (take n s) \<and>
      (case drop n s of [] \<Rightarrow> False | c # r \<Rightarrow> c = CHR ''-'' \<and> hexGroups ns r))"

definition isUuid :: "string \<Rightarrow> bool" where
  "isUuid s = hexGroups [8, 4, 4, 4, 12] s"

definition isSessionLogName :: "string \<Rightarrow> bool" where
  "isSessionLogName f = (suffix ''.jsonl'' f \<and> isUuid (take (length f - 6) f))"

text \<open>
  The candidates: every sub-directory, then every session log, whose modification time
  is merged into the candidate of the same id (\<^verbatim>\<open>Math.max\<close>) or appended; sorted by
  modification time, latest first (\<^verbatim>\<open>Array.prototype.sort\<close> is stable).
\<close>

definition addFileCandidate :: "(string \<times> int) list \<Rightarrow> dirent \<Rightarrow> (string \<times> int) list" where
  "addFileCandidate candidates f =
     (let sid = take (length (d_name f) - 6) (d_name f)
      in case map_of candidates sid of
           Some existing \<Rightarrow> AList.update sid (max existing (d_mtime f)) candidates
         | None \<Rightarrow> candidates @ [(sid, d_mtime f)])"

definition sessionCandidates :: "dirent list \<Rightarrow> (string \<times> int) list" where
  "sessionCandidates entries =
     sort_key (\<lambda>c. - snd c)
       (foldl addFileCandidate
          (map (\<lambda>d. (d_name d, d_mtime d)) (filter d_isDirectory entries))
          (filter (\<lambda>f. isSessionLogName (d_name f)) entries))"

definition getCurrentSessionId ::
  "bool \<Rightarrow> cycle_env \<Rightarrow> monitor \<Rightarrow> string option \<times> monitor \<times> event list" where
  "getCurrentSessionId forceRefresh env m =
     (if truthy (currentSessionId m) \<and> \<not> forceRefresh then (currentSessionId m, m, [])
      else
        (case readdirProject env (currentProject m) of
           Missing \<Rightarrow> (None, m, [])
         | Failure \<Rightarrow> (None, m, [Log Error])
         | Found entries \<Rightarrow>
             (case sessionCandidates entries of
                [] \<Rightarrow> (None, m, [])
              | (newSessionId, mt) # others \<Rightarrow>
                  (let m1 =
                     (if currentSessionId m \<noteq> Some newSessionId then
                        (let m0 = (if waitingForNewSession m \<and> Some newSessionId \<noteq> lastProcessedSessionId m
                                   then m\<lparr>waitingForNewSession := False, lastProcessedSessionId := None\<rparr>
                                   else m)
                         in m0\<lparr>watchedFiles := [],
                               stateStore := clearSessionFiles (currentSessionId m) (stateStore m0)\<rparr>)
                      else m)
                   in (Some newSessionId, m1\<lparr>currentSessionId := Some newSessionId\<rparr>, [])))))"

definition reset :: "monitor \<Rightarrow> monitor" where
  "reset m =
     m\<lparr>lastProcessedSessionId := currentSessionId m,
       currentSessionId := None,
       watchedFiles := [],
       processedMessages := [],
       stateStore := clear (stateStore m),
       waitingForNewSession := True\<rparr>"

text \<open>
  \<^verbatim>\<open>path.normalize\<close>, \<^verbatim>\<open>path.join\<close> and \<^verbatim>\<open>path.resolve\<close> of a relative path, as
  \<^verbatim>\<open>updateProjectPath\<close> uses them (POSIX). The segments between slashes are reduced from
  left to right: an empty segment and \<^verbatim>\<open>.\<close> are skipped; \<^verbatim>\<open>..\<close> removes the segment
  before it, or is kept when there is none to remove and the path is relative.
\<close>

fun normalizeSegments :: "bool \<Rightarrow> string list \<Rightarrow> string list \<Rightarrow> string list" where
  "normalizeSegments allowAboveRoot res [] = res"
| "normalizeSegments allowAboveRoot res (seg # segs) =
     (if seg = [] \<or> seg = ''.'' then normalizeSegments allowAboveRoot res segs
      else if seg = ''..'' then
        (if res \<noteq> [] \<and> last res \<noteq> ''..'' then normalizeSegments allowAboveRoot (butlast res) segs
         else if allowAboveRoot then normalizeSegments allowAboveRoot (res @ [''..'']) segs
         else normalizeSegments allowAboveRoot res segs)
      else normalizeSegments allowAboveRoot (res @ [seg]) segs)"

definition pathNormalize :: "string \<Rightarrow> string" where
  "pathNormalize p =
     (if p = [] then ''.''
      else
        (let isAbsolute = (hd p = CHR ''/'');
             trailingSeparator = (last p = CHR ''/'');
             body = joinWith ''/'' (normalizeSegments (\<not> isAbsolute) [] (split_on CHR ''/'' p))
         in if body = [] then (if isAbsolute then ''/'' else if trailingSeparator then ''./'' else ''.'')
            else (if isAbsolute then ''/'' else []) @ body @ (if trailingSeparator then ''/'' else [])))"

definition pathJoin :: "string \<Rightarrow> string \<Rightarrow> string" where
  "pathJoin a b =
     (if a = [] \<and> b = [] then ''.''
      else pathNormalize (if a = [] then b else if b = [] then a else a @ ''/'' @ b))"

definition pathResolve :: "string \<Rightarrow> string \<Rightarrow> string" where
  "pathResolve wd p =
     (let resolvedPath = (if wd = [] then p @ ''/'' else wd @ ''/'' @ p @ ''/'');
          resolvedAbsolute = (wd \<noteq> [] \<and> hd wd = CHR ''/'');
          body = joinWith ''/'' (normalizeSegments (\<not> resolvedAbsolute) [] (split_on CHR ''/'' resolvedPath))
      in if resolvedAbsolute then ''/'' @ body else if body \<noteq> [] then body else ''.'')"

text \<open>The directory Claude Code keeps for a project: every \<^verbatim>\<open>/\<close> of the absolute path
  becomes \<^verbatim>\<open>-\<close>, with a leading \<^verbatim>\<open>-\<close>. A path that does not start with \<^verbatim>\<open>/\<close> is
  resolved against the working directory of the process first.\<close>

definition projectDirName :: "string \<Rightarrow> string \<Rightarrow> string" where
  "projectDirName wd p =
     (let absolute = (if prefix ''/'' p then p else pathResolve wd p);
          projectName = map (\<lambda>c. if c = CHR ''/'' then CHR ''-'' else c) absolute
      in if prefix ''-'' projectName then projectName else ''-'' @ projectName)"

definition updateProjectPath :: "string \<Rightarrow> string \<Rightarrow> monitor \<Rightarrow> monitor" where
  "updateProjectPath wd newProjectPath m =
     (if newProjectPath = [] \<or> newProjectPath = projectPath m then m
      else m\<lparr>projectPath := newProjectPath,
             currentProject := pathJoin (claudeProjectsPath m) (projectDirName wd newProjectPath),
             currentSessionId := None,
             watchedFiles := []\<rparr>)"

text \<open>\<^verbatim>\<open>getAllTranscriptFiles\<close>: the main log of the session if it exists, then the
  \<^verbatim>\<open>.jsonl\<close> files of its \<^verbatim>\<open>subagents\<close> directory.\<close>

definition transcriptFilesOf :: "cycle_env \<Rightarrow> string \<Rightarrow> string \<Rightarrow> string list \<times> event list" where
  "transcriptFilesOf env project sid =
     (let mainTranscript = project @ ''/'' @ sid @ ''.jsonl'';
          files = (if existsSync env mainTranscript then [mainTranscript] else []);
          subagentsDir = project @ ''/'' @ sid @ ''/subagents''
      in if existsSync env subagentsDir then
           (case readdirSubagents env subagentsDir of
              None \<Rightarrow> (files, [Log Error])
            | Some names \<Rightarrow>
                (files @ filter (existsSync env)
                           (map (\<lambda>f. subagentsDir @ ''/'' @ f) (filter (suffix ''.jsonl'') names)),
                 []))
         else (files, []))"

definition getAllTranscriptFiles :: "cycle_env \<Rightarrow> monitor \<Rightarrow> string list \<times> monitor \<times> event list" where
  "getAllTranscriptFiles env m =
     (case getCurrentSessionId False env m of
        (sid, m1, evs) \<Rightarrow>
          if \<not> truthy sid then ([], m1, evs)
          else
            (case transcriptFilesOf env (currentProject m1) (orEmpty sid) of
               (files, evs1) \<Rightarrow> (files, m1, evs @ evs1)))"

subsection \<open>The dedup guard\<close>

definition isNewAssistantMessage :: "log_record \<Rightarrow> int \<Rightarrow> monitor \<Rightarrow> bool \<times> monitor" where
  "isNewAssistantMessage data t m =
     (if rtype data = ''assistant'' \<and>
         (case rmessage data of None \<Rightarrow> False | Some msg \<Rightarrow> role msg = ''assistant'') \<and>
         truthy (uuid data) \<and>
         \<not> map_has (orEmpty (uuid data)) (processedMessages m)
      then (case hasUuid (orEmpty (uuid data)) t (stateStore m) of
              (found, st) \<Rightarrow> (\<not> found, m\<lparr>stateStore := st\<rparr>))
      else (False, m))"

definition markMessageProcessed :: "string \<Rightarrow> int \<Rightarrow> monitor \<Rightarrow> monitor" where
  "markMessageProcessed u t m =
     (let pm0 = (if map_has u (processedMessages m) then AList.delete u (processedMessages m)
                 else processedMessages m);
          pm1 = AList.update u t pm0;
          st = addUuid u t (stateStore m)
      in m\<lparr>processedMessages := (if length pm1 > maxProcessedMessages then evictFirst pm1 else pm1),
           stateStore := st\<rparr>)"

definition cleanupProcessedMessages :: "int \<Rightarrow> monitor \<Rightarrow> monitor" where
  "cleanupProcessedMessages t m =
     m\<lparr>processedMessages := filter (\<lambda>(u, timestamp). \<not> (t - timestamp > processedMessagesTTL)) (processedMessages m),
       lastCleanupTime := t\<rparr>"

subsection \<open>Processing a file\<close>

text \<open>The body of the loop over the new lines. A line that does not parse is skipped.\<close>

definition processLine :: "cycle_env \<Rightarrow> ustring \<Rightarrow> monitor \<Rightarrow> monitor \<times> event list" where
  "processLine env line m =
     (case jsonParse env line of
        None \<Rightarrow> (m, [])
      | Some data \<Rightarrow>
          (case isNewAssistantMessage data (now env) m of
             (False, m1) \<Rightarrow> (m1, [])
           | (True, m1) \<Rightarrow>
               (case shouldSendMessage data of
                  (sendResult, evs) \<Rightarrow>
                    if \<not> send sendResult
                    then (markMessageProcessed (orEmpty (uuid data)) (now env) m1, evs)
                    else
                      (let evs1 = (case sd_interaction sendResult of
                                     None \<Rightarrow> []
                                   | Some i \<Rightarrow> handleInteraction (messenger m1) (onInteraction m1)
                                                (homeDir env) (readPlan env) i);
                           evs2 = (if pureText sendResult \<and> extractText data \<noteq> []
                                   then sendToFeishu (messenger m1) (extractText data) else [])
                       in (markMessageProcessed (orEmpty (uuid data)) (now env) m1,
                           evs @ evs1 @ evs2)))))"

fun processLines :: "cycle_env \<Rightarrow> ustring list \<Rightarrow> monitor \<Rightarrow> monitor \<times> event list" where
  "processLines env [] m = (m, [])"
| "processLines env (line # lines) m =
     (case processLine env line m of
        (m1, evs1) \<Rightarrow> (case processLines env lines m1 of (m2, evs2) \<Rightarrow> (m2, evs1 @ evs2)))"

text \<open>
  \<^verbatim>\<open>processFile(filePath)\<close>. A path that is not watched makes the assignment to the
  \<^verbatim>\<open>const fileState\<close> throw, which the \<^verbatim>\<open>catch\<close> logs. No new line: return. Otherwise
  the lines are processed, the file is stat-ed again, and its size becomes the position,
  in the watched entry and in the checkpoint (a failing stat is logged and leaves both).
\<close>

definition fileSessionIdOf :: "monitor \<Rightarrow> string \<Rightarrow> string option" where
  "fileSessionIdOf m filePath =
     (if truthy (currentSessionId m) then currentSessionId m
      else (case find isUuid (split_on CHR ''/'' filePath) of
              Some u \<Rightarrow> Some u
            | None \<Rightarrow> Some ''unknown''))"

definition processFile :: "cycle_env \<Rightarrow> string \<Rightarrow> monitor \<Rightarrow> monitor \<times> event list" where
  "processFile env filePath m =
     (case map_of (watchedFiles m) filePath of
        None \<Rightarrow> (m, [Log Error])
      | Some fileState \<Rightarrow>
          (case readNewLines (fileAtRead env filePath) (position fileState) of
             (newLines, evs0) \<Rightarrow>
               if length newLines = 0 then (m, ReadNewLines filePath (position fileState) # evs0)
               else
                 (case processLines env newLines m of
                    (m1, evs1) \<Rightarrow>
                      (case statAfter env filePath of
                         None \<Rightarrow> (m1, ReadNewLines filePath (position fileState) # evs0 @ evs1 @ [Log Error])
                       | Some (sz, mt) \<Rightarrow>
                           (m1\<lparr>watchedFiles :=
                                  AList.update filePath (fileState\<lparr>position := sz, lastSize := sz\<rparr>)
                                    (watchedFiles m1),
                                stateStore :=
                                  setFilePosition (fileSessionIdOf m filePath) filePath sz sz mt
                                    (stateStore m1)\<rparr>,
                            ReadNewLines filePath (position fileState) # evs0 @ evs1)))))"

fun processFiles :: "cycle_env \<Rightarrow> string list \<Rightarrow> monitor \<Rightarrow> monitor \<times> event list" where
  "processFiles env [] m = (m, [])"
| "processFiles env (filePath # rest) m =
     (case processFile env filePath m of
        (m1, evs1) \<Rightarrow> (case processFiles env rest m1 of (m2, evs2) \<Rightarrow> (m2, evs1 @ evs2)))"

subsection \<open>Plan mode\<close>

definition planModeCooldown :: int where
  "planModeCooldown = 300000"

definition checkPlanMode :: "cycle_env \<Rightarrow> monitor \<Rightarrow> monitor \<times> event list" where
  "checkPlanMode env m =
     (if \<not> tmuxCommander m \<or> messenger m = None then (m, [])
      else
        (case tmuxCapture env of
           None \<Rightarrow> (m, [Log Error])
         | Some tmuxContent \<Rightarrow>
             if tmuxContent = [] \<or> length (trim tmuxContent) = 0 then (m, [])
             else if isExitPlanMode tmuxContent then
               (let contentHash = hashPlanModeContent tmuxContent
                in if Some contentHash = lastNotifiedPlanModeContent m \<and>
                      (case lastPlanModeNotifyTime m of
                         None \<Rightarrow> False
                       | Some t \<Rightarrow> t \<noteq> 0 \<and> now env - t < planModeCooldown)
                   then (m, [])
                   else
                     (case parseExitPlanMode tmuxContent of
                        None \<Rightarrow> (m, [])
                      | Some i \<Rightarrow>
                          (m\<lparr>lastNotifiedPlanModeContent := Some contentHash,
                             lastPlanModeNotifyTime := Some (now env)\<rparr>,
                           handleInteraction (messenger m) (onInteraction m) (homeDir env) (readPlan env) i)))
             else (m\<lparr>lastNotifiedPlanModeContent := None, lastPlanModeNotifyTime := None\<rparr>, [])))"

subsection \<open>One cycle\<close>

text \<open>The files that appeared are seeded with the checkpointed state of the resolved
  session, or with offset 0; the watched paths that are no longer listed are dropped.\<close>

fun seedWatched :: "string option \<Rightarrow> string list \<Rightarrow> monitor \<Rightarrow> monitor" where
  "seedWatched sid [] m = m"
| "seedWatched sid (filePath # rest) m =
     seedWatched sid rest
       (if \<not> map_has filePath (watchedFiles m) then
          (case getFilePosition sid filePath (stateStore m) of
             Some savedState \<Rightarrow> m\<lparr>watchedFiles := AList.update filePath savedState (watchedFiles m)\<rparr>
           | None \<Rightarrow>
               m\<lparr>watchedFiles :=
                    AList.update filePath \<lparr>position = 0, lastSize = 0, mtime = None, sessionId = None\<rparr>
                      (watchedFiles m)\<rparr>)
        else m)"

definition dropUnlisted :: "string list \<Rightarrow> monitor \<Rightarrow> monitor" where
  "dropUnlisted allFiles m =
     m\<lparr>watchedFiles := filter (\<lambda>(filePath, fileState). filePath \<in> set allFiles) (watchedFiles m)\<rparr>"

text \<open>
  \<^verbatim>\<open>checkAndProcess\<close>. The memory-pressure block compares \<^verbatim>\<open>now - this.lastMemoryCheck\<close>
  with \<^verbatim>\<open>this.memoryCheckInterval\<close>; neither field is ever assigned before, the
  comparison of \<^verbatim>\<open>NaN\<close> is false and the block never runs: it has no counterpart here.
\<close>

definition housekeeping :: "cycle_env \<Rightarrow> monitor \<Rightarrow> monitor" where
  "housekeeping env m =
     (let m1 = (if now env - lastCleanupTime m > 300000 then cleanupProcessedMessages (now env) m else m)
      in if truthy (tmuxSessionName m1) \<and> now env - lastProjectPathCheck m1 > projectPathCheckInterval then
           (let m2 = m1\<lparr>lastProjectPathCheck := now env\<rparr>
            in if truthy (paneCurrentPath env) \<and> paneCurrentPath env \<noteq> Some (projectPath m2)
               then (updateProjectPath (cwd env) (orEmpty (paneCurrentPath env)) m2)
                      \<lparr>watchedFiles := [], currentSessionId := None\<rparr>
               else m2)
         else m1)"

definition shouldForceRefresh :: "cycle_env \<Rightarrow> monitor \<Rightarrow> bool" where
  "shouldForceRefresh env m =
     (waitingForNewSession m \<or>
      (case lastSessionCheckTime m of None \<Rightarrow> True | Some t \<Rightarrow> t = 0 \<or> now env - t > sessionCheckInterval))"

definition processCurrentFiles :: "cycle_env \<Rightarrow> string option \<Rightarrow> monitor \<Rightarrow> monitor \<times> event list" where
  "processCurrentFiles env sid m =
     (case getAllTranscriptFiles env m of
        (allFiles, m1, evs1) \<Rightarrow>
          if length allFiles = 0 then (m1, evs1)
          else
            (case processFiles env allFiles (dropUnlisted allFiles (seedWatched sid allFiles m1)) of
               (m2, evs2) \<Rightarrow> (m2, evs1 @ evs2)))"

text \<open>The steps of \<^verbatim>\<open>checkAndProcess\<close> after the session id is resolved: the early return
  while waiting for a new session, the end of the waiting state, the plan-mode check
  every five seconds, and the files.\<close>

definition endWaiting :: "string option \<Rightarrow> monitor \<Rightarrow> monitor" where
  "endWaiting sid m =
     (if waitingForNewSession m \<and> truthy sid
      then m\<lparr>waitingForNewSession := False, lastProcessedSessionId := None\<rparr>
      else m)"

definition planModeTick :: "cycle_env \<Rightarrow> monitor \<Rightarrow> monitor \<times> event list" where
  "planModeTick env m =
     (if tmuxCommander m \<and> now env - lastPlanModeCheck m > planModeCheckInterval
      then checkPlanMode env (m\<lparr>lastPlanModeCheck := now env\<rparr>)
      else (m, []))"

definition continueCycle :: "cycle_env \<Rightarrow> string option \<Rightarrow> monitor \<Rightarrow> monitor \<times> event list" where
  "continueCycle env sid m =
     (if waitingForNewSession m \<and> sid = lastProcessedSessionId m
      then (m\<lparr>isProcessing := False\<rparr>, [])
      else
        (case planModeTick env (endWaiting sid m) of
           (m5, evs5) \<Rightarrow>
             (case processCurrentFiles env sid m5 of
                (m6, evs6) \<Rightarrow> (m6\<lparr>isProcessing := False\<rparr>, evs5 @ evs6))))"

definition checkAndProcess :: "cycle_env \<Rightarrow> monitor \<Rightarrow> monitor \<times> event list" where
  "checkAndProcess env m =
     (if isProcessing m then (m, [])
      else
        (let m1 = housekeeping env (m\<lparr>isProcessing := True\<rparr>);
             force = shouldForceRefresh env m1
         in case getCurrentSessionId force env m1 of
              (sid, m2, evs2) \<Rightarrow>
                (case continueCycle env sid
                        (if force then m2\<lparr>lastSessionCheckTime := Some (now env)\<rparr> else m2) of
                   (m6, evs6) \<Rightarrow> (m6, evs2 @ evs6))))"

subsection \<open>Counting what was sent\<close>

text \<open>The messenger calls among the effects, used to state how often a delivery is
  attempted.\<close>

fun isSendEvent :: "event \<Rightarrow> bool" where
  "isSendEvent (SendText t r) = True"
| "isSendEvent (SendAskUserQuestion q r) = True"
| "isSendEvent _ = False"

definition sendAttempts :: "event list \<Rightarrow> nat" where
  "sendAttempts evs = length (filter isSendEvent evs)"

text \<open>The messenger calls that threw.\<close>

fun isThrownSend :: "event \<Rightarrow> bool" where
  "isThrownSend (SendText t r) = (r = SendThrew)"
| "isThrownSend (SendAskUserQuestion q r) = (r = SendThrew)"
| "isThrownSend _ = False"

definition thrownSends :: "event list \<Rightarrow> nat" where
  "thrownSends evs = length (filter isThrownSend evs)"

subsection \<open>Stating the offset and session properties\<close>

text \<open>
  The session id a cycle resolves: what \<^verbatim>\<open>getCurrentSessionId(shouldForceRefresh)\<close>
  returns in \<^verbatim>\<open>checkAndProcess\<close>, after the housekeeping of that cycle.
\<close>

definition resolvedSessionId :: "cycle_env \<Rightarrow> monitor \<Rightarrow> string option" where
  "resolvedSessionId env m =
     (let m1 = housekeeping env (m\<lparr>isProcessing := True\<rparr>)
      in fst (getCurrentSessionId (shouldForceRefresh env m1) env m1))"

text \<open>The cycle finds the tmux pane in another directory than the project path: its
  housekeeping calls \<^verbatim>\<open>updateProjectPath\<close> and clears the cached session id.\<close>

definition projectSwitches :: "cycle_env \<Rightarrow> monitor \<Rightarrow> bool" where
  "projectSwitches env m =
     (truthy (tmuxSessionName m) \<and> now env - lastProjectPathCheck m > projectPathCheckInterval \<and>
      truthy (paneCurrentPath env) \<and> paneCurrentPath env \<noteq> Some (projectPath m))"

text \<open>The log is append-only: a file is not shorter when \<^verbatim>\<open>processFile\<close> stats it than it
  was when \<^verbatim>\<open>readNewLines\<close> read it.\<close>

definition appendOnly :: "cycle_env \<Rightarrow> bool" where
  "appendOnly env =
     (\<forall>filePath bytes sz mt.
        fileAtRead env filePath = Some bytes \<longrightarrow> statAfter env filePath = Some (sz, mt) \<longrightarrow> length bytes \<le> sz)"

text \<open>No watched file is behind the checkpoint of the session: the offset the monitor
  reads from is at least the persisted one.\<close>

definition watchedCoversCheckpoint :: "string \<Rightarrow> monitor \<Rightarrow> bool" where
  "watchedCoversCheckpoint sid m =
     (\<forall>filePath ws e.
        map_of (watchedFiles m) filePath = Some ws \<longrightarrow>
        getFilePosition (Some sid) filePath (stateStore m) = Some e \<longrightarrow> position e \<le> position ws)"

text \<open>Every persisted offset of the session in \<open>m\<close> is still persisted in \<open>m'\<close>, and not
  smaller.\<close>

definition offsetsAdvance :: "string \<Rightarrow> monitor \<Rightarrow> monitor \<Rightarrow> bool" where
  "offsetsAdvance sid m m' =
     (\<forall>filePath e.
        getFilePosition (Some sid) filePath (stateStore m) = Some e \<longrightarrow>
        (\<exists>e'. getFilePosition (Some sid) filePath (stateStore m') = Some e' \<and> position e \<le> position e'))"

text \<open>The reads of files among the effects, a run of consecutive cycles, and the state
  between \<^verbatim>\<open>reset()\<close> and the first cycle that resolves another session than \<open>A\<close>: the
  monitor waits, remembers \<open>A\<close>, watches no file and has no offset in its checkpoint.\<close>

fun isReadEvent :: "event \<Rightarrow> bool" where
  "isReadEvent (ReadNewLines filePath pos) = True"
| "isReadEvent _ = False"

definition noReads :: "event list \<Rightarrow> bool" where
  "noReads evs = (filter isReadEvent evs = [])"




section \<open>Concrete inputs\<close>

text \<open>A freshly constructed monitor on an empty checkpoint, with a messenger whose every
  call is rejected, and a cycle environment with nothing on disk.\<close>

definition emptyStore :: persisted_state_store where
  "emptyStore = \<lparr>processedUuids = [], filePositions = [], dirty = False\<rparr>"

definition failingMessenger :: messenger_adapter where
  "failingMessenger = \<lparr>sendText = (\<lambda>t. SendThrew), sendAskUserQuestion = None\<rparr>"

definition workingMessenger :: messenger_adapter where
  "workingMessenger = \<lparr>sendText = (\<lambda>t. SendOk), sendAskUserQuestion = None\<rparr>"

definition newMonitor :: "messenger_adapter option \<Rightarrow> monitor" where
  "newMonitor msgr =
     \<lparr>messenger = msgr, stateStore = emptyStore,
      claudeProjectsPath = ''/home/u/.claude/projects'', projectPath = ''/srv/app'',
      currentProject = ''/home/u/.claude/projects/-srv-app'',
      watchedFiles = [], processedMessages = [], lastCleanupTime = 1000,
      currentSessionId = None, tmuxSessionName = None, lastProjectPathCheck = 0,
      isProcessing = False, lastProcessedSessionId = None, waitingForNewSession = False,
      lastSessionCheckTime = None, tmuxCommander = False, lastPlanModeCheck = 0,
      lastNotifiedPlanModeContent = None, lastPlanModeNotifyTime = None, onInteraction = None\<rparr>"

definition emptyEnv :: cycle_env where
  "emptyEnv =
     \<lparr>now = 2000, cwd = ''/'', paneCurrentPath = None,
      readdirProject = (\<lambda>d. Missing), existsSync = (\<lambda>p. False), readdirSubagents = (\<lambda>d. None),
      fileAtRead = (\<lambda>p. None), statAfter = (\<lambda>p. None), jsonParse = (\<lambda>l. None),
      tmuxCapture = None, homeDir = None, readPlan = (\<lambda>p. PlanMissing)\<rparr>"

text \<open>An AskUserQuestion record whose first question has no \<^verbatim>\<open>options\<close>, and one whose
  input has no \<^verbatim>\<open>questions\<close>.\<close>

definition askNoOptions :: log_record where
  "askNoOptions =
     \<lparr>rtype = ''assistant'', uuid = Some ''u1'',
      rmessage = Some \<lparr>role = ''assistant'',
        content = ContentArray
          [ToolUse ''AskUserQuestion''
             (Some (QArray [QEntry \<lparr>rq_question = Some (asc ''Proceed?''), rq_header = None,
                                    rq_options = None, rq_multiSelect = None\<rparr>]))]\<rparr>\<rparr>"

definition askNoQuestions :: log_record where
  "askNoQuestions =
     \<lparr>rtype = ''assistant'', uuid = Some ''u2'',
      rmessage = Some \<lparr>role = ''assistant'',
        content = ContentArray [TextBlock (Some (asc ''hi'')), ToolUse ''AskUserQuestion'' (Some QMissing)]\<rparr>\<rparr>"

text \<open>An assistant record with one line of text.\<close>

definition textRecord :: log_record where
  "textRecord =
     \<lparr>rtype = ''assistant'', uuid = Some ''u1'',
      rmessage = Some \<lparr>role = ''assistant'',
        content = ContentArray [TextBlock (Some (asc ''Build finished''))]\<rparr>\<rparr>"

text \<open>A monitor in session \<^verbatim>\<open>A\<close> with one identifier and the offsets of two sessions in its
  checkpoint, and a project directory in which session \<^verbatim>\<open>B\<close> is the most recent.\<close>

definition trackedMonitor :: monitor where
  "trackedMonitor =
     (newMonitor (Some workingMessenger))
       \<lparr>stateStore :=
          \<lparr>processedUuids = [(''u1'', 1000)],
           filePositions =
             [(''A:/p/A.jsonl'', \<lparr>position = 10, lastSize = 10, mtime = Some 5, sessionId = Some ''A''\<rparr>),
              (''B:/p/B.jsonl'', \<lparr>position = 7, lastSize = 7, mtime = Some 4, sessionId = Some ''B''\<rparr>)],
           dirty = False\<rparr>,
        currentProject := ''/p'',
        watchedFiles := [(''/p/A.jsonl'', \<lparr>position = 10, lastSize = 10, mtime = Some 5, sessionId = Some ''A''\<rparr>)],
        processedMessages := [(''u1'', 1000)],
        currentSessionId := Some ''A''\<rparr>"

definition listingAB :: "dirent list" where
  "listingAB =
     [\<lparr>d_name = ''A'', d_isDirectory = True, d_mtime = 3\<rparr>,
      \<lparr>d_name = ''B'', d_isDirectory = True, d_mtime = 9\<rparr>]"

definition envB :: cycle_env where
  "envB = emptyEnv\<lparr>readdirProject := (\<lambda>d. Found listingAB)\<rparr>"

text \<open>Every line parses to the text record; the messenger rejects every call.\<close>

definition envText :: cycle_env where
  "envText = emptyEnv\<lparr>jsonParse := (\<lambda>l. Some textRecord)\<rparr>"

definition failingMonitor :: monitor where
  "failingMonitor = newMonitor (Some failingMessenger)"

text \<open>The same, one millisecond after the TTL of an identifier marked at 2000 has
  elapsed; and a messenger that reports every call as failed without throwing.\<close>

definition envTextLate :: cycle_env where
  "envTextLate = envText\<lparr>now := 3602001\<rparr>"

definition refusingMessenger :: messenger_adapter where
  "refusingMessenger = \<lparr>sendText = (\<lambda>t. SendFailed), sendAskUserQuestion = None\<rparr>"

definition refusedMonitor :: monitor where
  "refusedMonitor = newMonitor (Some refusingMessenger)"

text \<open>A cycle in which session \<^verbatim>\<open>A\<close> is still the most recent one and its log has grown
  from 10 to 14 bytes; no line of it parses.\<close>

definition listingA :: "dirent list" where
  "listingA = [\<lparr>d_name = ''A'', d_isDirectory = True, d_mtime = 9\<rparr>]"

definition envA :: cycle_env where
  "envA =
     emptyEnv
       \<lparr>readdirProject := (\<lambda>d. Found listingA),
        existsSync := (\<lambda>p. p = ''/p/A.jsonl''),
        fileAtRead := (\<lambda>p. if p = ''/p/A.jsonl'' then Some (replicate 10 120 @ [110, 101, 119, 10]) else None),
        statAfter := (\<lambda>p. if p = ''/p/A.jsonl'' then Some (14, 77) else None)\<rparr>"


text \<open>A message of two paragraphs of 10000 units each, separated by a blank line.\<close>

definition twoParagraphs :: ustring where
  "twoParagraphs = replicate 10000 97 @ [0x0A, 0x0A] @ replicate 10000 98"

text \<open>
  Files for the reader: an ASCII file whose first record \<^verbatim>\<open>a...abcd\<close> crosses the
  boundary of the first chunk and which ends in the fragment \<^verbatim>\<open>ef\<close>; a file whose
  three-byte character U+4E2D begins at byte 8191; and a last line seen first as \<^verbatim>\<open>ab\<close>
  and, one cycle later, as \<^verbatim>\<open>abcd\<close> with its line feed.
\<close>

definition straddlingAscii :: "nat list" where
  "straddlingAscii = replicate 8190 97 @ [98, 99, 100, 10, 101, 102]"

definition straddlingCharacter :: "nat list" where
  "straddlingCharacter = replicate 8191 97 @ [0xE4, 0xB8, 0xAD, 10]"

definition freshWatch :: monitor where
  "freshWatch =
     (newMonitor None)
       \<lparr>currentProject := ''/p'', currentSessionId := Some ''A'',
        watchedFiles := [(''/p/A.jsonl'', \<lparr>position = 0, lastSize = 0, mtime = None, sessionId = None\<rparr>)]\<rparr>"

definition envGrowing1 :: cycle_env where
  "envGrowing1 = emptyEnv\<lparr>fileAtRead := (\<lambda>p. Some [97, 98]), statAfter := (\<lambda>p. Some (2, 1))\<rparr>"

definition envGrowing2 :: cycle_env where
  "envGrowing2 = emptyEnv\<lparr>fileAtRead := (\<lambda>p. Some [97, 98, 99, 100, 10]), statAfter := (\<lambda>p. Some (5, 2))\<rparr>"

text \<open>A terminal capture that shows the plan prompt with two options and the path of the
  plan document; a monitor with a terminal and a working messenger; a plan document of
  5001 units at the expanded path.\<close>

definition planCapture :: ustring where
  "planCapture =
     asc ''Claude has written up a plan'' @ [0x0A] @
     asc ''Would you like to proceed?'' @ [0x0A] @
     [0x20, 0x276F] @ asc '' 1. Yes, go'' @ [0x0A] @
     asc ''   2. No'' @ [0x0A] @
     asc ''ctrl-g to edit in Vim '' @ [0xB7] @ asc '' ~/p.md''"

definition planMonitor :: monitor where
  "planMonitor = (newMonitor (Some workingMessenger))\<lparr>tmuxCommander := True\<rparr>"

definition envPlan :: cycle_env where
  "envPlan =
     emptyEnv\<lparr>tmuxCapture := Some planCapture, homeDir := Some (asc ''/home/u''),
              readPlan := (\<lambda>p. if p = asc ''/home/u/p.md'' then PlanContent (replicate 5001 0x61)
                                else PlanMissing)\<rparr>"

text \<open>The same last line when the file grows during the cycle: \<^verbatim>\<open>ab\<close> when it is read,
  5 bytes when it is stat-ed after processing, and \<^verbatim>\<open>abcd\<close>, a line feed and \<^verbatim>\<open>ef\<close> one
  cycle later.\<close>

definition envRacing1 :: cycle_env where
  "envRacing1 = emptyEnv\<lparr>fileAtRead := (\<lambda>p. Some [97, 98]), statAfter := (\<lambda>p. Some (5, 1))\<rparr>"

definition envRacing2 :: cycle_env where
  "envRacing2 =
     emptyEnv\<lparr>fileAtRead := (\<lambda>p. Some [97, 98, 99, 100, 10, 101, 102]), statAfter := (\<lambda>p. Some (7, 2))\<rparr>"

text \<open>The monitor of session \<^verbatim>\<open>A\<close> attached to a tmux session, and a cycle that finds
  the pane in another project, whose directory holds session \<^verbatim>\<open>B\<close> only.\<close>

definition paneMonitor :: monitor where
  "paneMonitor = trackedMonitor\<lparr>tmuxSessionName := Some ''main''\<rparr>"

definition listingB :: "dirent list" where
  "listingB = [\<lparr>d_name = ''B'', d_isDirectory = True, d_mtime = 9\<rparr>]"

definition envSwitch :: cycle_env where
  "envSwitch =
     emptyEnv\<lparr>now := 6000, paneCurrentPath := Some ''/srv/other'',
              readdirProject := (\<lambda>d. if d = ''/home/u/.claude/projects/-srv-other'' then Found listingB
                                       else Missing)\<rparr>"

text \<open>The same prompt under another first line, as a later capture shows it, 98 seconds
  and 300 seconds after the first.\<close>

definition planCaptureLater :: ustring where
  "planCaptureLater = asc ''(esc to cancel)'' @ [0x0A] @ planCapture"

definition envPlanLater :: cycle_env where
  "envPlanLater = envPlan\<lparr>now := 100000, tmuxCapture := Some planCaptureLater\<rparr>"

definition envPlanMuchLater :: cycle_env where
  "envPlanMuchLater = envPlan\<lparr>now := 302000, tmuxCapture := Some planCaptureLater\<rparr>"

section \<open>Verified properties\<close>

subsection \<open>Classification of a question without its questions list\<close>

lemma find_ask_ex:
  "find isAskBlock bs = Some b \<Longrightarrow> list_ex isAskBlock bs \<and> list_ex isToolUseBlock bs"
  by (induction bs) (auto split: if_splits elim: isAskBlock.elims)

text \<open>A relative project path is resolved against the working directory before its
  slashes are replaced.\<close>

lemma projectDirName_relative: "projectDirName ''/srv/app'' ''../other/./x'' = ''-srv-other-x''"
  by (simp add: projectDirName_def pathResolve_def Let_def)

subsection \<open>The dedup guard and its time-to-live\<close>

lemma update_absent: "map_of al k = None \<Longrightarrow> AList.update k v al = al @ [(k, v)]"
  by (induction al) (auto split: if_splits)

lemma map_of_delete_self: "map_of (AList.delete k al) k = None"
  by (simp add: delete_conv')

lemma map_of_evictFirst_last:
  assumes "map_of al k = None" "length (al @ [(k, v)]) > 1"
  shows "map_of (evictFirst (al @ [(k, v)])) k = Some v"
proof (cases al)
  case Nil
  with assms show ?thesis by simp
next
  case (Cons p ps)
  obtain a b where p: "p = (a, b)" by (cases p)
  with Cons assms(1) have "a \<noteq> k" by (auto split: if_splits)
  then show ?thesis
    using Cons p assms(1) by (auto simp: evictFirst_def delete_conv' map_add_def)
qed

lemma marked_in_cache:
  "map_of (processedMessages (markMessageProcessed u t m)) u = Some t"
proof -
  define pm0 where "pm0 = (if map_has u (processedMessages m) then AList.delete u (processedMessages m)
                 else processedMessages m)"
  have a: "map_of pm0 u = None"
    by (simp add: pm0_def map_has_def map_of_delete_self)
  have u: "AList.update u t pm0 = pm0 @ [(u, t)]"
    using a by (rule update_absent)
  show ?thesis
  proof (cases "length (pm0 @ [(u, t)]) > maxProcessedMessages")
    case True
    then have "length (pm0 @ [(u, t)]) > 1" by (auto simp: maxProcessedMessages_def)
    from map_of_evictFirst_last [OF a this] True show ?thesis
      unfolding markMessageProcessed_def Let_def pm0_def [symmetric] u by auto
  next
    case False
    then show ?thesis
      unfolding markMessageProcessed_def Let_def pm0_def [symmetric] u using a by (simp add: map_add_def)
  qed
qed

lemma set_evictFirst: "set (evictFirst al) \<subseteq> set al"
  by (cases al) (auto simp: evictFirst_def AList.delete_eq)

lemma map_of_evictFirst: "map_of (evictFirst al) k = None \<or> map_of (evictFirst al) k = map_of al k"
  by (cases al) (auto simp: evictFirst_def delete_conv')

lemma marked_entries:
  assumes "(u, ts) \<in> set (processedMessages (markMessageProcessed u t m))"
  shows "ts = t"
proof -
  define pm0 where "pm0 = (if map_has u (processedMessages m) then AList.delete u (processedMessages m)
                 else processedMessages m)"
  have a: "map_of pm0 u = None"
    by (simp add: pm0_def map_has_def map_of_delete_self)
  have u: "AList.update u t pm0 = pm0 @ [(u, t)]"
    using a by (rule update_absent)
  have "set (processedMessages (markMessageProcessed u t m)) \<subseteq> set (pm0 @ [(u, t)])"
    unfolding markMessageProcessed_def Let_def pm0_def [symmetric] u
    using set_evictFirst [of "pm0 @ [(u, t)]"] by auto
  with assms have "(u, ts) \<in> set (pm0 @ [(u, t)])" by blast
  moreover from a have "(u, ts) \<notin> set pm0"
    by (metis map_of_eq_None_iff image_eqI fst_conv)
  ultimately show ?thesis by simp
qed

lemma stored_after_mark:
  "map_of (processedUuids (stateStore (markMessageProcessed u t m))) u = None \<or>
   map_of (processedUuids (stateStore (markMessageProcessed u t m))) u = Some t"
  using map_of_evictFirst [of "AList.update u t (processedUuids (stateStore m))" u]
  by (auto simp: markMessageProcessed_def addUuid_def Let_def update_conv')

lemma seen_when_cached:
  assumes "map_of (processedMessages m) u \<noteq> None" "uuid data = Some u"
  shows "\<not> fst (isNewAssistantMessage data t m)"
  using assms by (simp add: isNewAssistantMessage_def map_has_def orEmpty_def)

text \<open>
  C2 (as the code has it). After \<^verbatim>\<open>markMessageProcessed(u)\<close> at time \<open>t0\<close>, the seen-check of
  the processing loop (\<^verbatim>\<open>isNewAssistantMessage\<close> answers "not new") holds at every time
  \<open>tw\<close> of the TTL window, also after a cleanup of the cache inside the window; once the
  TTL has elapsed and \<^verbatim>\<open>cleanupProcessedMessages\<close> has run, the record is new again;
  and marking it again makes it seen again.
\<close>

theorem seen_until_ttl_and_cleanup:
  assumes "rtype data = ''assistant''" and "rmessage data = Some msg" and "role msg = ''assistant''"
    and "uuid data = Some u" and "u \<noteq> []"
    and "tw - t0 \<le> uuidTtl" and "te - t0 > uuidTtl"
  shows "\<not> fst (isNewAssistantMessage data tw (markMessageProcessed u t0 m)) \<and>
         \<not> fst (isNewAssistantMessage data tw (cleanupProcessedMessages tw (markMessageProcessed u t0 m))) \<and>
         fst (isNewAssistantMessage data te (cleanupProcessedMessages te (markMessageProcessed u t0 m))) \<and>
         \<not> fst (isNewAssistantMessage data t2
                  (markMessageProcessed u t2
                     (snd (isNewAssistantMessage data te
                             (cleanupProcessedMessages te (markMessageProcessed u t0 m))))))"
proof -
  let ?m1 = "markMessageProcessed u t0 m"
  have c1: "\<not> fst (isNewAssistantMessage data tw ?m1)"
    using seen_when_cached [OF _ assms(4)] marked_in_cache [of u t0 m] by simp
  have "(u, t0) \<in> set (processedMessages ?m1)"
    using marked_in_cache [of u t0 m] by (simp add: map_of_SomeD)
  then have "(u, t0) \<in> set (processedMessages (cleanupProcessedMessages tw ?m1))"
    using assms(6) by (simp add: cleanupProcessedMessages_def processedMessagesTTL_def uuidTtl_def)
  then have "map_of (processedMessages (cleanupProcessedMessages tw ?m1)) u \<noteq> None"
    by (metis map_of_eq_None_iff image_eqI fst_conv)
  then have c2: "\<not> fst (isNewAssistantMessage data tw (cleanupProcessedMessages tw ?m1))"
    using seen_when_cached [OF _ assms(4)] by simp
  have "u \<notin> fst ` set (processedMessages (cleanupProcessedMessages te ?m1))"
  proof
    assume "u \<in> fst ` set (processedMessages (cleanupProcessedMessages te ?m1))"
    then obtain ts where ts: "(u, ts) \<in> set (processedMessages ?m1)" "\<not> te - ts > processedMessagesTTL"
      by (auto simp: cleanupProcessedMessages_def)
    from marked_entries [OF ts(1)] have "ts = t0" .
    with ts(2) assms(7) show False by (simp add: processedMessagesTTL_def uuidTtl_def)
  qed
  then have nc: "\<not> map_has u (processedMessages (cleanupProcessedMessages te ?m1))"
    by (simp add: map_has_def map_of_eq_None_iff)
  have st: "stateStore (cleanupProcessedMessages te ?m1) = stateStore ?m1"
    by (simp add: cleanupProcessedMessages_def)
  have "\<not> fst (hasUuid u te (stateStore ?m1))"
    using stored_after_mark [of u t0 m] assms(7) by (auto simp: hasUuid_def split: if_splits)
  then have c3: "fst (isNewAssistantMessage data te (cleanupProcessedMessages te ?m1))"
    using assms(1-5) nc st
    by (auto simp: isNewAssistantMessage_def truthy_def orEmpty_def split: prod.splits)
  have c4: "\<not> fst (isNewAssistantMessage data t2
                  (markMessageProcessed u t2
                     (snd (isNewAssistantMessage data te (cleanupProcessedMessages te ?m1)))))"
    using seen_when_cached [OF _ assms(4)] marked_in_cache by simp
  from c1 c2 c3 c4 show ?thesis by blast
qed

text \<open>C2, witness: marked at 1000, looked up at 2000 (inside the window) and at 3601001
  (one millisecond after the window), marked again at 3601002.\<close>

theorem seen_until_ttl_and_cleanup_witness:
  "\<not> fst (isNewAssistantMessage textRecord 2000 (markMessageProcessed ''u1'' 1000 (newMonitor None))) \<and>
   \<not> fst (isNewAssistantMessage textRecord 2000
            (cleanupProcessedMessages 2000 (markMessageProcessed ''u1'' 1000 (newMonitor None)))) \<and>
   fst (isNewAssistantMessage textRecord 3601001
          (cleanupProcessedMessages 3601001 (markMessageProcessed ''u1'' 1000 (newMonitor None)))) \<and>
   \<not> fst (isNewAssistantMessage textRecord 3601002
            (markMessageProcessed ''u1'' 3601002
               (snd (isNewAssistantMessage textRecord 3601001
                       (cleanupProcessedMessages 3601001 (markMessageProcessed ''u1'' 1000 (newMonitor None)))))))"
  using seen_until_ttl_and_cleanup [of textRecord
      "\<lparr>role = ''assistant'', content = ContentArray [TextBlock (Some (asc ''Build finished''))]\<rparr>"
      "''u1''" 2000 1000 3601001 "newMonitor None" 3601002]
  by (simp add: textRecord_def uuidTtl_def)

text \<open>C2, counterexample to the claim as stated: one millisecond after the TTL has
  elapsed, with no cleanup in between, the in-memory cache still answers "seen".\<close>

theorem seen_after_ttl_counterexample:
  "(3601001 :: int) - 1000 > uuidTtl \<and>
   fst (isNewAssistantMessage textRecord 3601001 (markMessageProcessed ''u1'' 1000 (newMonitor None))) = False"
  by (simp add: uuidTtl_def isNewAssistantMessage_def markMessageProcessed_def textRecord_def newMonitor_def
      map_has_def orEmpty_def truthy_def maxProcessedMessages_def Let_def)

subsection \<open>What a session switch and a reset delete\<close>

lemma map_of_filter_key:
  "map_of (filter (\<lambda>(k, v). P k) al) key = (if P key then map_of al key else None)"
  by (induction al) auto

lemma getCurrentSessionId_switch:
  assumes "currentSessionId m = Some old" "getCurrentSessionId True env m = (Some new, m', evs)" "new \<noteq> old"
  shows "stateStore m' = clearSessionFiles (Some old) (stateStore m)"
  using assms
  by (auto simp: getCurrentSessionId_def Let_def split: fs_result.splits list.splits if_splits)

text \<open>
  C10 (as the code has it). A session switch detected by \<^verbatim>\<open>getCurrentSessionId\<close> leaves
  the identifier table as it is and deletes exactly the file-offset entries whose key
  starts with the old session id and a colon, so that no offset of the old session
  remains. An explicit \<^verbatim>\<open>reset()\<close> clears the whole checkpoint: every identifier, the
  offsets of every session, and the in-memory cache. A lookup removes no entry other
  than an expired entry of the identifier looked up.
\<close>

theorem switch_purges_offsets_reset_clears_all:
  assumes "currentSessionId m = Some old" and "old \<noteq> []"
    and "getCurrentSessionId True env m = (Some new, m', evs)" and "new \<noteq> old"
    and "map_of (processedUuids st) k = Some ts" and "k \<noteq> u \<or> (ts \<noteq> 0 \<and> t - ts \<le> uuidTtl)"
  shows "processedUuids (stateStore m') = processedUuids (stateStore m) \<and>
         (\<forall>filePath. getFilePosition (Some old) filePath (stateStore m') = None) \<and>
         filePositions (stateStore m') =
           filter (\<lambda>(key, v). \<not> prefix (old @ '':'') key) (filePositions (stateStore m)) \<and>
         processedUuids (stateStore (reset m)) = [] \<and>
         filePositions (stateStore (reset m)) = [] \<and>
         processedMessages (reset m) = [] \<and>
         map_of (processedUuids (snd (hasUuid u t st))) k = Some ts"
proof -
  have s: "stateStore m' = clearSessionFiles (Some old) (stateStore m)"
    using getCurrentSessionId_switch [OF assms(1,3,4)] .
  have a: "processedUuids (stateStore m') = processedUuids (stateStore m)"
    using assms(2) by (simp add: s clearSessionFiles_def)
  have f: "filePositions (stateStore m') =
           filter (\<lambda>(key, v). \<not> prefix (old @ '':'') key) (filePositions (stateStore m))"
    using assms(2) by (simp add: s clearSessionFiles_def)
  have b: "getFilePosition (Some old) filePath (stateStore m') = None" for filePath
    using assms(2) by (simp add: getFilePosition_def f map_of_filter_key makeFileKey_def)
  have r: "processedUuids (stateStore (reset m)) = [] \<and> filePositions (stateStore (reset m)) = [] \<and>
           processedMessages (reset m) = []"
    by (simp add: reset_def clear_def)
  have h: "map_of (processedUuids (snd (hasUuid u t st))) k = Some ts"
    using assms(5,6) by (auto simp: hasUuid_def delete_conv' split: option.splits)
  from a b f r h show ?thesis by blast
qed

lemma candsAB: "sessionCandidates listingAB = [(''B'', 9), (''A'', 3)]"
  by (simp add: sessionCandidates_def listingAB_def isSessionLogName_def suffix_to_prefix)

text \<open>C10, witness: the monitor is in session \<^verbatim>\<open>A\<close>, the directory shows \<^verbatim>\<open>B\<close> as the
  most recent session.\<close>

theorem switch_purges_offsets_reset_clears_all_witness:
  "processedUuids (stateStore (fst (snd (getCurrentSessionId True envB trackedMonitor)))) = [(''u1'', 1000)] \<and>
   getFilePosition (Some ''A'') ''/p/A.jsonl'' (stateStore (fst (snd (getCurrentSessionId True envB trackedMonitor)))) = None \<and>
   map_of (filePositions (stateStore (fst (snd (getCurrentSessionId True envB trackedMonitor))))) ''B:/p/B.jsonl''
     = Some \<lparr>position = 7, lastSize = 7, mtime = Some 4, sessionId = Some ''B''\<rparr> \<and>
   processedUuids (stateStore (reset trackedMonitor)) = [] \<and>
   filePositions (stateStore (reset trackedMonitor)) = [] \<and>
   map_of (processedUuids (snd (hasUuid ''u1'' 2000 (stateStore trackedMonitor)))) ''u1'' = Some 1000"
proof -
  have g: "getCurrentSessionId True envB trackedMonitor =
           (Some ''B'', fst (snd (getCurrentSessionId True envB trackedMonitor)), [])"
    by (simp add: getCurrentSessionId_def envB_def emptyEnv_def trackedMonitor_def newMonitor_def candsAB Let_def)
  have c: "currentSessionId trackedMonitor = Some ''A''"
    by (simp add: trackedMonitor_def)
  have p: "map_of (processedUuids (stateStore trackedMonitor)) ''u1'' = Some 1000"
    by (simp add: trackedMonitor_def)
  have q: "''u1'' \<noteq> ''u1'' \<or> ((1000::int) \<noteq> 0 \<and> 2000 - 1000 \<le> uuidTtl)"
    by (simp add: uuidTtl_def)
  from switch_purges_offsets_reset_clears_all [OF c _ g _ p q]
  show ?thesis by (simp add: trackedMonitor_def newMonitor_def)
qed

text \<open>C10, counterexample to the claim as stated: \<^verbatim>\<open>reset()\<close> removes the unexpired
  identifier \<^verbatim>\<open>u1\<close> and the offset of session \<^verbatim>\<open>B\<close>, which is not the session being
  left.\<close>

theorem reset_keeps_identifiers_counterexample:
  "map_of (processedUuids (stateStore trackedMonitor)) ''u1'' = Some 1000 \<and>
   map_of (processedUuids (stateStore (reset trackedMonitor))) ''u1'' = None \<and>
   getFilePosition (Some ''B'') ''/p/B.jsonl'' (stateStore trackedMonitor) \<noteq> None \<and>
   getFilePosition (Some ''B'') ''/p/B.jsonl'' (stateStore (reset trackedMonitor)) = None"
  by (simp add: trackedMonitor_def newMonitor_def reset_def clear_def getFilePosition_def makeFileKey_def)

subsection \<open>A failed delivery still marks the record\<close>

lemma sendAttempts_append [simp]: "sendAttempts (a @ b) = sendAttempts a + sendAttempts b"
  by (simp add: sendAttempts_def)

lemma sendAttempts_Nil [simp]: "sendAttempts [] = 0"
  by (simp add: sendAttempts_def)

lemma sendAttempts_Cons [simp]: "sendAttempts (e # evs) = (if isSendEvent e then 1 else 0) + sendAttempts evs"
  by (simp add: sendAttempts_def)

lemma parseAsk_no_send: "sendAttempts (snd (parseAskUserQuestion data)) = 0"
  by (auto simp: parseAskUserQuestion_def split: option.splits block.splits questions_field.splits list.splits question_entry.splits)

lemma shouldSend_shape:
  assumes "shouldSendMessage data = (sr, evs)"
  shows "sendAttempts evs = 0 \<and> (sd_interaction sr = None \<or> \<not> pureText sr)"
proof -
  obtain i e where p: "parse data = (i, e)" by (cases "parse data")
  have "sendAttempts e = 0"
    using p parseAsk_no_send [of data] by (auto simp: parse_def split: if_splits)
  then show ?thesis
    using assms p by (auto simp: shouldSendMessage_def split: option.splits if_splits)
qed

lemma notifyCallback_no_send [simp]: "sendAttempts (notifyCallback cb i) = 0"
  by (simp add: notifyCallback_def split: option.splits)

lemma thrownSends_Nil [simp]: "thrownSends [] = 0"
  by (simp add: thrownSends_def)

lemma thrownSends_Cons [simp]: "thrownSends (e # evs) = (if isThrownSend e then 1 else 0) + thrownSends evs"
  by (simp add: thrownSends_def)

lemma thrownSends_append [simp]: "thrownSends (a @ b) = thrownSends a + thrownSends b"
  by (simp add: thrownSends_def)

lemma thrown_is_send: "isThrownSend e \<Longrightarrow> isSendEvent e"
  by (cases e) simp_all

lemma no_send_no_throw: "sendAttempts evs = 0 \<Longrightarrow> thrownSends evs = 0"
  by (induction evs) (auto simp: thrown_is_send split: if_splits)

lemma notifyCallback_no_throw [simp]: "thrownSends (notifyCallback cb i) = 0"
  by (simp add: notifyCallback_def split: option.splits)

text \<open>Whatever the messenger answers: at most one send of a message throws, and the
  one that throws is followed by the error line and by nothing else.\<close>

lemma sendChunks_stops_at_throw:
  "thrownSends (sendChunks sender n i cs) \<le> 1 \<and>
   (0 < thrownSends (sendChunks sender n i cs) \<longrightarrow> last (sendChunks sender n i cs) = Log Error) \<and>
   sendAttempts (sendChunks sender n i cs) \<le> length cs"
proof (induction cs arbitrary: i)
  case Nil
  then show ?case by simp
next
  case (Cons c cs)
  let ?p = "(if n > 1 then chunkPrefix i n else []) @ c"
  show ?case
  proof (cases "sender ?p = SendThrew")
    case True
    then show ?thesis by (simp add: Let_def)
  next
    case False
    have ne: "0 < thrownSends (sendChunks sender n (i + 1) cs) \<Longrightarrow> sendChunks sender n (i + 1) cs \<noteq> []"
      by auto
    show ?thesis
      using False Cons [of "i + 1"] ne by (auto simp: Let_def)
  qed
qed

lemma sendToFeishu_stops_at_throw:
  "thrownSends (sendToFeishu msgr text) \<le> 1 \<and>
   (0 < thrownSends (sendToFeishu msgr text) \<longrightarrow> last (sendToFeishu msgr text) = Log Error) \<and>
   sendAttempts (sendToFeishu msgr text) \<le>
     (case splitMessage text MAX_SINGLE_MESSAGE of None \<Rightarrow> 1 | Some chunks \<Rightarrow> max 1 (length chunks))"
proof (cases msgr)
  case None
  then show ?thesis by (simp add: sendToFeishu_def split: option.splits)
next
  case (Some ms)
  show ?thesis
  proof (cases "length text \<le> SPLIT_THRESHOLD")
    case True
    then show ?thesis using Some by (simp add: sendToFeishu_def Let_def split: option.splits)
  next
    case False
    show ?thesis
    proof (cases "splitMessage text MAX_SINGLE_MESSAGE")
      case None
      then show ?thesis using False Some by (simp add: sendToFeishu_def)
    next
      case (Some chunks)
      have "sendToFeishu msgr text = sendChunks (sendText ms) (length chunks) 0 chunks"
        using False Some \<open>msgr = Some ms\<close> by (simp add: sendToFeishu_def)
      then show ?thesis
        using sendChunks_stops_at_throw [of "sendText ms" "length chunks" 0 chunks] Some
        by (simp add: max_def)
    qed
  qed
qed

lemma loadPlan_no_send: "sendAttempts (snd (loadPlan home rp p)) = 0"
  by (auto simp: loadPlan_def split: if_splits plan_read.splits)

lemma handleInteraction_stops_at_throw:
  "thrownSends (handleInteraction msgr cb home rp i) \<le> 1 \<and>
   (0 < thrownSends (handleInteraction msgr cb home rp i) \<longrightarrow>
      last (handleInteraction msgr cb home rp i) = Log Error) \<and>
   sendAttempts (handleInteraction msgr cb home rp i) \<le> 1"
proof (cases i)
  case (AskUserQuestion u q)
  then show ?thesis
    by (auto simp: handleInteraction_def handleAskUserQuestion_def split: option.splits)
next
  case (ExitPlanMode q p)
  obtain pc evs where l: "loadPlan home rp p = (pc, evs)" by (cases "loadPlan home rp p")
  have "sendAttempts evs = 0" "thrownSends evs = 0"
    using l loadPlan_no_send [of home rp p] no_send_no_throw [of evs] by simp_all
  then show ?thesis using ExitPlanMode l
    by (auto simp: handleInteraction_def handleExitPlanMode_def Let_def split: option.splits)
qed

lemma isNew_true_D:
  assumes "fst (isNewAssistantMessage data t m)" "uuid data = Some u"
  shows "\<exists>st. isNewAssistantMessage data t m = (True, m\<lparr>stateStore := st\<rparr>) \<and>
              hasUuid u t (stateStore m) = (False, st)"
  using assms by (auto simp: isNewAssistantMessage_def orEmpty_def split: if_splits prod.splits)

lemma hasUuid_false_absent:
  assumes "hasUuid u t st = (False, st')" "map_of (processedUuids st) u \<noteq> Some 0"
  shows "map_of (processedUuids st') u = None"
  using assms by (auto simp: hasUuid_def delete_conv' split: option.splits if_splits)

lemma addUuid_absent:
  assumes "map_of (processedUuids st) u = None"
  shows "map_of (processedUuids (addUuid u t st)) u = Some t"
proof -
  have u: "AList.update u t (processedUuids st) = processedUuids st @ [(u, t)]"
    using assms by (rule update_absent)
  show ?thesis
  proof (cases "length (processedUuids st @ [(u, t)]) > 10000")
    case True
    then have "length (processedUuids st @ [(u, t)]) > 1" by auto
    from map_of_evictFirst_last [OF assms this] True show ?thesis
      by (simp add: addUuid_def Let_def u)
  next
    case False
    then show ?thesis using assms by (simp add: addUuid_def Let_def u map_add_def)
  qed
qed

lemma processLine_new:
  assumes "jsonParse env line = Some data" "uuid data = Some u"
    "isNewAssistantMessage data (now env) m = (True, m1)" "shouldSendMessage data = (sr, evs)"
  shows "fst (processLine env line m) = markMessageProcessed u (now env) m1"
  using assms by (simp add: processLine_def Let_def orEmpty_def)

lemma processLine_seen:
  assumes "jsonParse env line = Some data" and "uuid data = Some u"
    and "map_has u (processedMessages m) \<or>
         (\<exists>ts. map_of (processedUuids (stateStore m)) u = Some ts \<and> ts \<noteq> 0 \<and> now env - ts \<le> uuidTtl)"
  shows "snd (processLine env line m) = []"
proof -
  have "\<not> fst (isNewAssistantMessage data (now env) m)"
    using assms(2,3)
    by (auto simp: isNewAssistantMessage_def orEmpty_def hasUuid_def split: prod.splits option.splits)
  then show ?thesis
    using assms(1) by (auto simp: processLine_def split: prod.splits bool.splits)
qed

lemma processLine_events:
  assumes "jsonParse env line = Some data"
    and "isNewAssistantMessage data (now env) m = (True, m1)" and "shouldSendMessage data = (sr, evs)"
  shows "thrownSends (snd (processLine env line m)) \<le> 1 \<and>
         (0 < thrownSends (snd (processLine env line m)) \<longrightarrow> last (snd (processLine env line m)) = Log Error) \<and>
         sendAttempts (snd (processLine env line m)) \<le>
           (case splitMessage (extractText data) MAX_SINGLE_MESSAGE of
              None \<Rightarrow> 1 | Some chunks \<Rightarrow> max 1 (length chunks))"
proof -
  have sh: "sendAttempts evs = 0" "sd_interaction sr = None \<or> \<not> pureText sr"
    using shouldSend_shape [OF assms(3)] by blast+
  have th: "thrownSends evs = 0" using sh(1) by (rule no_send_no_throw)
  have b: "(1 :: nat) \<le> (case splitMessage (extractText data) MAX_SINGLE_MESSAGE of
              None \<Rightarrow> 1 | Some chunks \<Rightarrow> max 1 (length chunks))"
    by (simp split: option.splits)
  show ?thesis
  proof (cases "send sr")
    case False
    then show ?thesis using assms sh th by (simp add: processLine_def)
  next
    case True
    show ?thesis
    proof (cases "sd_interaction sr")
      case None
      let ?e = "(if pureText sr \<and> extractText data \<noteq> []
                 then sendToFeishu (messenger m1) (extractText data) else [])"
      have r: "snd (processLine env line m) = evs @ ?e"
        using True None assms by (simp add: processLine_def Let_def)
      have e: "thrownSends ?e \<le> 1" "0 < thrownSends ?e \<longrightarrow> last ?e = Log Error"
        "sendAttempts ?e \<le> (case splitMessage (extractText data) MAX_SINGLE_MESSAGE of
              None \<Rightarrow> 1 | Some chunks \<Rightarrow> max 1 (length chunks))"
        using sendToFeishu_stops_at_throw [of "messenger m1" "extractText data"]
        by (auto split: option.splits)
      have ne: "0 < thrownSends ?e \<Longrightarrow> ?e \<noteq> []" by (auto split: if_splits)
      show ?thesis unfolding r using e ne sh(1) th by auto
    next
      case (Some i)
      with sh(2) have np: "\<not> pureText sr" by simp
      let ?e = "handleInteraction (messenger m1) (onInteraction m1) (homeDir env) (readPlan env) i"
      have r: "snd (processLine env line m) = evs @ ?e"
        using True Some np assms by (simp add: processLine_def Let_def)
      have e: "thrownSends ?e \<le> 1" "0 < thrownSends ?e \<longrightarrow> last ?e = Log Error" "sendAttempts ?e \<le> 1"
        using handleInteraction_stops_at_throw
                [of "messenger m1" "onInteraction m1" "homeDir env" "readPlan env" i] by auto
      have ne: "0 < thrownSends ?e \<Longrightarrow> ?e \<noteq> []" by auto
      show ?thesis unfolding r using e ne sh(1) th b by auto
    qed
  qed
qed

text \<open>
  C1 (as the code has it). A new record is processed, whatever the messenger is and
  whatever its calls answer (a throw, a reported failure, success, or no messenger at
  all). Its identifier is then in the in-memory cache and in the persistent store, each
  with the time of the pass. Nothing is retried within the pass: at most one send throws,
  the one that throws is followed by the error line and by nothing else, and there is at
  most one send per chunk of the message. A later pass over the same record sends nothing
  on any monitor state that still holds the identifier in its cache, or in its store with
  an age within the TTL; in particular on the state the first pass left, at any time, and
  on that state after a cleanup of the cache at any time (or with the cache lost
  altogether), as long as the TTL has not elapsed since the first pass.
\<close>

theorem failed_delivery_still_marks_seen:
  assumes "jsonParse env line = Some data" and "uuid data = Some u"
    and "fst (isNewAssistantMessage data (now env) m)"
    and "map_of (processedUuids (stateStore m)) u \<noteq> Some 0"
    and "jsonParse env2 line2 = Some data"
    and "map_has u (processedMessages m2) \<or>
         (\<exists>ts. map_of (processedUuids (stateStore m2)) u = Some ts \<and> ts \<noteq> 0 \<and> now env2 - ts \<le> uuidTtl)"
    and "jsonParse env3 line3 = Some data"
    and "now env \<noteq> 0" and "now env3 - now env \<le> uuidTtl"
  shows "map_of (processedMessages (fst (processLine env line m))) u = Some (now env) \<and>
         map_of (processedUuids (stateStore (fst (processLine env line m)))) u = Some (now env) \<and>
         thrownSends (snd (processLine env line m)) \<le> 1 \<and>
         (0 < thrownSends (snd (processLine env line m)) \<longrightarrow> last (snd (processLine env line m)) = Log Error) \<and>
         sendAttempts (snd (processLine env line m)) \<le>
           (case splitMessage (extractText data) MAX_SINGLE_MESSAGE of
              None \<Rightarrow> 1 | Some chunks \<Rightarrow> max 1 (length chunks)) \<and>
         snd (processLine env2 line2 m2) = [] \<and>
         snd (processLine env2 line2 (fst (processLine env line m))) = [] \<and>
         snd (processLine env3 line3 (cleanupProcessedMessages tc (fst (processLine env line m)))) = [] \<and>
         snd (processLine env3 line3 ((fst (processLine env line m))\<lparr>processedMessages := []\<rparr>)) = []"
proof -
  from isNew_true_D [OF assms(3,2)] obtain st where
    n: "isNewAssistantMessage data (now env) m = (True, m\<lparr>stateStore := st\<rparr>)"
    and h: "hasUuid u (now env) (stateStore m) = (False, st)" by blast
  let ?m1 = "m\<lparr>stateStore := st\<rparr>"
  let ?post = "fst (processLine env line m)"
  obtain sr evs where s: "shouldSendMessage data = (sr, evs)" by (cases "shouldSendMessage data")
  have f: "?post = markMessageProcessed u (now env) ?m1"
    using processLine_new [OF assms(1,2) n s] .
  have c1: "map_of (processedMessages ?post) u = Some (now env)"
    by (simp add: f marked_in_cache)
  have "map_of (processedUuids st) u = None"
    using hasUuid_false_absent [OF h assms(4)] .
  then have c2: "map_of (processedUuids (stateStore ?post)) u = Some (now env)"
    by (simp add: f markMessageProcessed_def Let_def addUuid_absent)
  note c3 = processLine_events [OF assms(1) n s]
  have c4: "snd (processLine env2 line2 m2) = []"
    using processLine_seen [OF assms(5,2,6)] .
  have "map_has u (processedMessages ?post)"
    using c1 by (simp add: map_has_def)
  then have c5: "snd (processLine env2 line2 ?post) = []"
    using processLine_seen [OF assms(5,2)] by blast
  have "\<exists>ts. map_of (processedUuids (stateStore (cleanupProcessedMessages tc ?post))) u = Some ts \<and>
             ts \<noteq> 0 \<and> now env3 - ts \<le> uuidTtl"
    using c2 assms(8,9) by (simp add: cleanupProcessedMessages_def)
  then have c6: "snd (processLine env3 line3 (cleanupProcessedMessages tc ?post)) = []"
    using processLine_seen [OF assms(7,2)] by blast
  have "\<exists>ts. map_of (processedUuids (stateStore (?post\<lparr>processedMessages := []\<rparr>))) u = Some ts \<and>
             ts \<noteq> 0 \<and> now env3 - ts \<le> uuidTtl"
    using c2 assms(8,9) by simp
  then have c7: "snd (processLine env3 line3 (?post\<lparr>processedMessages := []\<rparr>)) = []"
    using processLine_seen [OF assms(7,2)] by blast
  from c1 c2 c3 c4 c5 c6 c7 show ?thesis by blast
qed

text \<open>The pass on the text record with a messenger that throws: one rejected send, one
  error line. With a messenger that reports a failure without throwing: one send, and
  nothing logged.\<close>

lemma failing_pass_events:
  "snd (processLine envText (asc ''{}'') failingMonitor) = [SendText (asc ''Build finished'') SendThrew, Log Error]"
  by (simp add: processLine_def envText_def emptyEnv_def failingMonitor_def newMonitor_def textRecord_def
      isNewAssistantMessage_def hasUuid_def emptyStore_def map_has_def truthy_def orEmpty_def
      shouldSendMessage_def parse_def isAskUserQuestion_def contentArray_def isPureText_def
      hasToolUse_def hasThinking_def extractText_def List.map_filter_def sendToFeishu_def
      failingMessenger_def SPLIT_THRESHOLD_def asc_def trim_def isSpace_def isLineTerminator_def Let_def)

lemma refused_pass_events:
  "snd (processLine envText (asc ''{}'') refusedMonitor) = [SendText (asc ''Build finished'') SendFailed]"
  by (simp add: processLine_def envText_def emptyEnv_def refusedMonitor_def newMonitor_def textRecord_def
      isNewAssistantMessage_def hasUuid_def emptyStore_def map_has_def truthy_def orEmpty_def
      shouldSendMessage_def parse_def isAskUserQuestion_def contentArray_def isPureText_def
      hasToolUse_def hasThinking_def extractText_def List.map_filter_def sendToFeishu_def
      refusingMessenger_def SPLIT_THRESHOLD_def asc_def trim_def isSpace_def isLineTerminator_def Let_def)

text \<open>C1, witness: the text record and a messenger that reports every send as failed;
  a second pass over the same line on the state of the first, on a monitor that holds the
  identifier from before, and within the TTL after a cleanup of the cache; and the same
  record with a messenger that throws.\<close>

theorem failed_delivery_still_marks_seen_witness:
  "map_of (processedMessages (fst (processLine envText (asc ''{}'') refusedMonitor))) ''u1'' = Some (now envText) \<and>
   map_of (processedUuids (stateStore (fst (processLine envText (asc ''{}'') refusedMonitor)))) ''u1'' = Some (now envText) \<and>
   snd (processLine envText (asc ''{}'') refusedMonitor) = [SendText (asc ''Build finished'') SendFailed] \<and>
   snd (processLine envText (asc ''{}'') trackedMonitor) = [] \<and>
   snd (processLine envText (asc ''{}'') (fst (processLine envText (asc ''{}'') refusedMonitor))) = [] \<and>
   snd (processLine envText (asc ''{}'')
          (cleanupProcessedMessages 2000 (fst (processLine envText (asc ''{}'') refusedMonitor)))) = [] \<and>
   snd (processLine envText (asc ''{}'')
          ((fst (processLine envText (asc ''{}'') refusedMonitor))\<lparr>processedMessages := []\<rparr>)) = [] \<and>
   map_of (processedMessages (fst (processLine envText (asc ''{}'') failingMonitor))) ''u1'' = Some (now envText) \<and>
   map_of (processedUuids (stateStore (fst (processLine envText (asc ''{}'') failingMonitor)))) ''u1'' = Some (now envText) \<and>
   thrownSends (snd (processLine envText (asc ''{}'') failingMonitor)) = 1 \<and>
   last (snd (processLine envText (asc ''{}'') failingMonitor)) = Log Error"
proof -
  have 1: "jsonParse envText (asc ''{}'') = Some textRecord"
    by (simp add: envText_def)
  have 2: "uuid textRecord = Some ''u1''"
    by (simp add: textRecord_def)
  have 3: "fst (isNewAssistantMessage textRecord (now envText) refusedMonitor)"
    "fst (isNewAssistantMessage textRecord (now envText) failingMonitor)"
    by (simp_all add: isNewAssistantMessage_def textRecord_def refusedMonitor_def failingMonitor_def
        newMonitor_def map_has_def truthy_def orEmpty_def hasUuid_def emptyStore_def)
  have 4: "map_of (processedUuids (stateStore refusedMonitor)) ''u1'' \<noteq> Some 0"
    "map_of (processedUuids (stateStore failingMonitor)) ''u1'' \<noteq> Some 0"
    by (simp_all add: refusedMonitor_def failingMonitor_def newMonitor_def emptyStore_def)
  have 6: "map_has ''u1'' (processedMessages trackedMonitor) \<or>
         (\<exists>ts. map_of (processedUuids (stateStore trackedMonitor)) ''u1'' = Some ts \<and> ts \<noteq> 0 \<and>
               now envText - ts \<le> uuidTtl)"
    by (simp add: trackedMonitor_def map_has_def)
  have 8: "now envText \<noteq> 0" "now envText - now envText \<le> uuidTtl"
    by (simp_all add: envText_def emptyEnv_def uuidTtl_def)
  have t: "0 < thrownSends (snd (processLine envText (asc ''{}'') failingMonitor))"
    "thrownSends (snd (processLine envText (asc ''{}'') failingMonitor)) = 1"
    unfolding failing_pass_events by simp_all
  from failed_delivery_still_marks_seen [OF 1 2 3(1) 4(1) 1 6 1 8, of 2000]
       failed_delivery_still_marks_seen [OF 1 2 3(2) 4(2) 1 6 1 8, of 2000]
  show ?thesis using refused_pass_events t by simp
qed

text \<open>
  C1, counterexample to the claim as stated: the send of the text record throws at time
  2000 and the identifier is marked. One millisecond after the TTL has elapsed, and after
  the cleanup of the cache, a pass over the same record sends it again.
\<close>

theorem failed_record_sent_again_after_ttl_counterexample:
  "snd (processLine envText (asc ''{}'') failingMonitor) =
     [SendText (asc ''Build finished'') SendThrew, Log Error] \<and>
   snd (processLine envTextLate (asc ''{}'')
          (cleanupProcessedMessages (now envTextLate) (fst (processLine envText (asc ''{}'') failingMonitor)))) =
     [SendText (asc ''Build finished'') SendThrew, Log Error]"
proof -
  have p: "fst (processLine envText (asc ''{}'') failingMonitor) =
           failingMonitor\<lparr>processedMessages := [(''u1'', 2000)],
                          stateStore := \<lparr>processedUuids = [(''u1'', 2000)], filePositions = [], dirty = True\<rparr>\<rparr>"
    by (simp add: processLine_def envText_def emptyEnv_def failingMonitor_def newMonitor_def textRecord_def
      isNewAssistantMessage_def hasUuid_def emptyStore_def map_has_def truthy_def orEmpty_def
      shouldSendMessage_def parse_def isAskUserQuestion_def contentArray_def isPureText_def
      hasToolUse_def hasThinking_def extractText_def List.map_filter_def sendToFeishu_def
      failingMessenger_def SPLIT_THRESHOLD_def asc_def trim_def isSpace_def isLineTerminator_def Let_def
      markMessageProcessed_def addUuid_def maxProcessedMessages_def)
  have q: "snd (processLine envTextLate (asc ''{}'')
          (cleanupProcessedMessages (now envTextLate)
             (failingMonitor\<lparr>processedMessages := [(''u1'', 2000)],
                          stateStore := \<lparr>processedUuids = [(''u1'', 2000)], filePositions = [], dirty = True\<rparr>\<rparr>))) =
     [SendText (asc ''Build finished'') SendThrew, Log Error]"
    by (simp add: processLine_def envTextLate_def envText_def emptyEnv_def failingMonitor_def newMonitor_def
      textRecord_def cleanupProcessedMessages_def processedMessagesTTL_def uuidTtl_def
      isNewAssistantMessage_def hasUuid_def emptyStore_def map_has_def truthy_def orEmpty_def
      shouldSendMessage_def parse_def isAskUserQuestion_def contentArray_def isPureText_def
      hasToolUse_def hasThinking_def extractText_def List.map_filter_def sendToFeishu_def
      failingMessenger_def SPLIT_THRESHOLD_def asc_def trim_def isSpace_def isLineTerminator_def Let_def)
  show ?thesis using failing_pass_events p q by simp
qed

subsection \<open>Persisted offsets within a session and across a switch\<close>

lemma hasUuid_frame [simp]: "filePositions (snd (hasUuid u t st)) = filePositions st"
  by (simp add: hasUuid_def split: option.splits)

lemma addUuid_frame [simp]: "filePositions (addUuid u t st) = filePositions st"
  by (simp add: addUuid_def Let_def)

lemma isNew_frame:
  "watchedFiles (snd (isNewAssistantMessage data t m)) = watchedFiles m \<and>
   filePositions (stateStore (snd (isNewAssistantMessage data t m))) = filePositions (stateStore m) \<and>
   currentSessionId (snd (isNewAssistantMessage data t m)) = currentSessionId m"
  by (simp add: isNewAssistantMessage_def split: prod.splits) (metis hasUuid_frame snd_conv)

lemma mark_frame:
  "watchedFiles (markMessageProcessed u t m) = watchedFiles m \<and>
   filePositions (stateStore (markMessageProcessed u t m)) = filePositions (stateStore m) \<and>
   currentSessionId (markMessageProcessed u t m) = currentSessionId m"
  by (simp add: markMessageProcessed_def Let_def)

lemma processLine_frame:
  "watchedFiles (fst (processLine env line m)) = watchedFiles m \<and>
   filePositions (stateStore (fst (processLine env line m))) = filePositions (stateStore m) \<and>
   currentSessionId (fst (processLine env line m)) = currentSessionId m"
proof (cases "jsonParse env line")
  case None
  then show ?thesis by (simp add: processLine_def)
next
  case (Some data)
  obtain b m1 where n: "isNewAssistantMessage data (now env) m = (b, m1)"
    by (cases "isNewAssistantMessage data (now env) m")
  have f: "watchedFiles m1 = watchedFiles m \<and> filePositions (stateStore m1) = filePositions (stateStore m) \<and>
           currentSessionId m1 = currentSessionId m"
    using isNew_frame [of data "now env" m] n by simp
  show ?thesis
    using Some n f mark_frame [of "orEmpty (uuid data)" "now env" m1]
    by (cases b) (simp_all add: processLine_def Let_def split: prod.splits)
qed

lemma processLines_Cons_fst:
  "fst (processLines env (line # lines) m) = fst (processLines env lines (fst (processLine env line m)))"
  by (simp split: prod.splits)

lemma processLines_frame:
  "watchedFiles (fst (processLines env lines m)) = watchedFiles m \<and>
   filePositions (stateStore (fst (processLines env lines m))) = filePositions (stateStore m) \<and>
   currentSessionId (fst (processLines env lines m)) = currentSessionId m"
proof (induction lines arbitrary: m)
  case Nil
  then show ?case by simp
next
  case (Cons line lines)
  show ?case
    unfolding processLines_Cons_fst
    using Cons [of "fst (processLine env line m)"] processLine_frame [of env line m]
    by simp
qed

lemma readNewLines_nonempty:
  assumes "readNewLines f0 pos = (lines, evs)" "lines \<noteq> []"
  shows "\<exists>bytes. f0 = Some bytes \<and> pos < length bytes"
  using assms by (cases f0) (auto simp: readNewLines_def Let_def split: if_splits)

lemma makeFileKey_inj: "makeFileKey sid p = makeFileKey sid q \<Longrightarrow> p = q"
  by (simp add: makeFileKey_def)

lemma getFilePosition_set:
  "getFilePosition sid p (setFilePosition sid q pos ls mt st) =
     (if p = q then Some \<lparr>position = pos, lastSize = ls, mtime = Some mt, sessionId = sid\<rparr>
      else getFilePosition sid p st)"
  using makeFileKey_inj [of sid p q]
  by (auto simp: getFilePosition_def setFilePosition_def update_conv')

lemma getFilePosition_cong:
  "filePositions st = filePositions st' \<Longrightarrow> getFilePosition sid p st = getFilePosition sid p st'"
  by (simp add: getFilePosition_def)

lemma processFile_offsets:
  assumes "currentSessionId m = Some sid" "sid \<noteq> []" "watchedCoversCheckpoint sid m" "appendOnly env"
  shows "offsetsAdvance sid m (fst (processFile env filePath m)) \<and>
         watchedCoversCheckpoint sid (fst (processFile env filePath m)) \<and>
         currentSessionId (fst (processFile env filePath m)) = Some sid"
proof (cases "map_of (watchedFiles m) filePath")
  case None
  then show ?thesis using assms by (simp add: processFile_def offsetsAdvance_def)
next
  case (Some fileState)
  obtain newLines evs0 where r: "readNewLines (fileAtRead env filePath) (position fileState) = (newLines, evs0)"
    by (cases "readNewLines (fileAtRead env filePath) (position fileState)")
  show ?thesis
  proof (cases "newLines = []")
    case True
    then show ?thesis using assms Some r by (simp add: processFile_def offsetsAdvance_def)
  next
    case False
    obtain m1 evs1 where p: "processLines env newLines m = (m1, evs1)"
      by (cases "processLines env newLines m")
    have fr: "watchedFiles m1 = watchedFiles m" "filePositions (stateStore m1) = filePositions (stateStore m)"
      "currentSessionId m1 = currentSessionId m"
      using processLines_frame [of env newLines m] p by simp_all
    have gp: "getFilePosition s q (stateStore m1) = getFilePosition s q (stateStore m)" for s q
      using fr(2) by (rule getFilePosition_cong)
    show ?thesis
    proof (cases "statAfter env filePath")
      case None
      then have "fst (processFile env filePath m) = m1"
        using Some r False p by (simp add: processFile_def)
      then show ?thesis
        using assms fr gp by (simp add: offsetsAdvance_def watchedCoversCheckpoint_def)
    next
      case (Some a)
      obtain sz mt where a: "a = (sz, mt)" by (cases a)
      from readNewLines_nonempty [OF r False] obtain bytes where
        b: "fileAtRead env filePath = Some bytes" "position fileState < length bytes" by blast
      have le: "length bytes \<le> sz"
        using assms(4) b(1) Some a by (simp add: appendOnly_def)
      have fs: "fileSessionIdOf m filePath = Some sid"
        using assms(1,2) by (simp add: fileSessionIdOf_def truthy_def)
      let ?m' = "m1\<lparr>watchedFiles := AList.update filePath (fileState\<lparr>position := sz, lastSize := sz\<rparr>) (watchedFiles m1),
                    stateStore := setFilePosition (Some sid) filePath sz sz mt (stateStore m1)\<rparr>"
      have res: "fst (processFile env filePath m) = ?m'"
        using \<open>map_of (watchedFiles m) filePath = Some fileState\<close> r False p Some a fs
        by (simp add: processFile_def)
      have adv: "offsetsAdvance sid m ?m'"
        unfolding offsetsAdvance_def
      proof (intro allI impI)
        fix q e assume e: "getFilePosition (Some sid) q (stateStore m) = Some e"
        show "\<exists>e'. getFilePosition (Some sid) q (stateStore ?m') = Some e' \<and> position e \<le> position e'"
        proof (cases "q = filePath")
          case True
          have "position e \<le> position fileState"
            using assms(3) e True \<open>map_of (watchedFiles m) filePath = Some fileState\<close>
            by (auto simp: watchedCoversCheckpoint_def)
          with b(2) le have "position e \<le> sz" by simp
          then show ?thesis using True by (simp add: getFilePosition_set)
        next
          case False
          then show ?thesis using e gp by (simp add: getFilePosition_set)
        qed
      qed
      have cov: "watchedCoversCheckpoint sid ?m'"
        unfolding watchedCoversCheckpoint_def
      proof (intro allI impI)
        fix q ws e
        assume w: "map_of (watchedFiles ?m') q = Some ws"
          and e: "getFilePosition (Some sid) q (stateStore ?m') = Some e"
        show "position e \<le> position ws"
        proof (cases "q = filePath")
          case True
          then show ?thesis using w e by (auto simp: getFilePosition_set update_conv')
        next
          case False
          then show ?thesis
            using w e assms(3) fr(1) gp
            by (auto simp: getFilePosition_set update_conv' watchedCoversCheckpoint_def)
        qed
      qed
      show ?thesis using res adv cov fr(3) assms(1) by simp
    qed
  qed
qed

lemma offsetsAdvance_refl: "offsetsAdvance sid m m"
  by (simp add: offsetsAdvance_def)

lemma offsetsAdvance_trans:
  "offsetsAdvance sid a b \<Longrightarrow> offsetsAdvance sid b c \<Longrightarrow> offsetsAdvance sid a c"
  unfolding offsetsAdvance_def by (meson order_trans)

lemma processFiles_offsets:
  assumes "currentSessionId m = Some sid" "sid \<noteq> []" "watchedCoversCheckpoint sid m" "appendOnly env"
  shows "offsetsAdvance sid m (fst (processFiles env files m)) \<and>
         watchedCoversCheckpoint sid (fst (processFiles env files m)) \<and>
         currentSessionId (fst (processFiles env files m)) = Some sid"
  using assms
proof (induction files arbitrary: m)
  case Nil
  then show ?case by (simp add: offsetsAdvance_refl)
next
  case (Cons f files)
  let ?m1 = "fst (processFile env f m)"
  from processFile_offsets [OF Cons.prems, of f]
  have 1: "offsetsAdvance sid m ?m1" "watchedCoversCheckpoint sid ?m1" "currentSessionId ?m1 = Some sid"
    by blast+
  from Cons.IH [OF 1(3) Cons.prems(2) 1(2) Cons.prems(4)]
  have 2: "offsetsAdvance sid ?m1 (fst (processFiles env files ?m1))"
    "watchedCoversCheckpoint sid (fst (processFiles env files ?m1))"
    "currentSessionId (fst (processFiles env files ?m1)) = Some sid" by blast+
  have "fst (processFiles env (f # files) m) = fst (processFiles env files ?m1)"
    by (simp split: prod.splits)
  then show ?case using 1 2 offsetsAdvance_trans by metis
qed


lemma cover_same:
  assumes "filePositions (stateStore m') = filePositions (stateStore m)"
    and "watchedFiles m' = watchedFiles m \<or> watchedFiles m' = []"
    and "watchedCoversCheckpoint sid m"
  shows "watchedCoversCheckpoint sid m'"
  using assms getFilePosition_cong [OF assms(1)]
  by (auto simp: watchedCoversCheckpoint_def)

lemma advance_same:
  assumes "filePositions (stateStore m') = filePositions (stateStore m)"
  shows "offsetsAdvance sid m m'"
  using getFilePosition_cong [OF assms] by (simp add: offsetsAdvance_def)

lemma seedWatched_frame:
  "stateStore (seedWatched s files m) = stateStore m \<and>
   currentSessionId (seedWatched s files m) = currentSessionId m"
  by (induction files arbitrary: m) (simp_all split: option.splits)

lemma seedWatched_cover:
  assumes "watchedCoversCheckpoint sid m"
  shows "watchedCoversCheckpoint sid (seedWatched (Some sid) files m)"
  using assms
proof (induction files arbitrary: m)
  case Nil
  then show ?case by simp
next
  case (Cons f files)
  let ?m1 = "(if \<not> map_has f (watchedFiles m) then
          (case getFilePosition (Some sid) f (stateStore m) of
             Some savedState \<Rightarrow> m\<lparr>watchedFiles := AList.update f savedState (watchedFiles m)\<rparr>
           | None \<Rightarrow>
               m\<lparr>watchedFiles :=
                    AList.update f \<lparr>position = 0, lastSize = 0, mtime = None, sessionId = None\<rparr>
                      (watchedFiles m)\<rparr>)
        else m)"
  have "watchedCoversCheckpoint sid ?m1"
    using Cons.prems
    by (auto simp: watchedCoversCheckpoint_def update_conv' getFilePosition_def split: option.splits if_splits)
  from Cons.IH [OF this] show ?case by simp
qed

lemma dropUnlisted_cover:
  assumes "watchedCoversCheckpoint sid m"
  shows "watchedCoversCheckpoint sid (dropUnlisted files m)"
  using assms
  by (auto simp: watchedCoversCheckpoint_def dropUnlisted_def map_of_filter_key getFilePosition_def
      split: if_splits)

lemma checkPlanMode_frame:
  "stateStore (fst (checkPlanMode env m)) = stateStore m \<and>
   watchedFiles (fst (checkPlanMode env m)) = watchedFiles m \<and>
   currentSessionId (fst (checkPlanMode env m)) = currentSessionId m"
  by (simp add: checkPlanMode_def Let_def split: option.splits)

lemma housekeeping_frame:
  "stateStore (housekeeping env m) = stateStore m \<and>
   ((watchedFiles (housekeeping env m) = watchedFiles m \<and>
     currentSessionId (housekeeping env m) = currentSessionId m) \<or>
    (watchedFiles (housekeeping env m) = [] \<and> currentSessionId (housekeeping env m) = None))"
  by (simp add: housekeeping_def Let_def cleanupProcessedMessages_def updateProjectPath_def)

lemma getCurrentSessionId_same:
  assumes "getCurrentSessionId force env m = (Some sid, m', evs)"
    and "currentSessionId m = Some sid \<or> currentSessionId m = None"
  shows "stateStore m' = stateStore m \<and> currentSessionId m' = Some sid \<and>
         (watchedFiles m' = watchedFiles m \<or> watchedFiles m' = [])"
  using assms
  by (auto simp: getCurrentSessionId_def Let_def clearSessionFiles_def
      split: if_splits fs_result.splits list.splits)

lemma processCurrentFiles_offsets:
  assumes "currentSessionId m = Some sid" "sid \<noteq> []" "watchedCoversCheckpoint sid m" "appendOnly env"
  shows "offsetsAdvance sid m (fst (processCurrentFiles env (Some sid) m)) \<and>
         watchedCoversCheckpoint sid (fst (processCurrentFiles env (Some sid) m)) \<and>
         currentSessionId (fst (processCurrentFiles env (Some sid) m)) = Some sid"
proof -
  have g: "getCurrentSessionId False env m = (Some sid, m, [])"
    using assms(1,2) by (simp add: getCurrentSessionId_def truthy_def)
  have "fst (snd (getAllTranscriptFiles env m)) = m"
    using g by (simp add: getAllTranscriptFiles_def split: prod.splits)
  then obtain allFiles evs where a: "getAllTranscriptFiles env m = (allFiles, m, evs)"
    by (cases "getAllTranscriptFiles env m") auto
  show ?thesis
  proof (cases "allFiles = []")
    case True
    then show ?thesis using a assms by (simp add: processCurrentFiles_def offsetsAdvance_refl)
  next
    case False
    let ?m1 = "dropUnlisted allFiles (seedWatched (Some sid) allFiles m)"
    have c: "watchedCoversCheckpoint sid ?m1"
      using dropUnlisted_cover [OF seedWatched_cover [OF assms(3)]] .
    have s: "currentSessionId ?m1 = Some sid" "stateStore ?m1 = stateStore m"
      using seedWatched_frame [of "Some sid" allFiles m] assms(1) by (simp_all add: dropUnlisted_def)
    have adv0: "offsetsAdvance sid m ?m1"
      using advance_same [of ?m1 m sid] s(2) by simp
    from processFiles_offsets [OF s(1) assms(2) c assms(4), of allFiles]
    have p: "offsetsAdvance sid ?m1 (fst (processFiles env allFiles ?m1))"
      "watchedCoversCheckpoint sid (fst (processFiles env allFiles ?m1))"
      "currentSessionId (fst (processFiles env allFiles ?m1)) = Some sid" by blast+
    have "fst (processCurrentFiles env (Some sid) m) = fst (processFiles env allFiles ?m1)"
      using a False by (simp add: processCurrentFiles_def split: prod.splits)
    then show ?thesis using p offsetsAdvance_trans [OF adv0 p(1)] by simp
  qed
qed

lemma continueCycle_offsets:
  assumes "currentSessionId m = Some sid" "sid \<noteq> []" "watchedCoversCheckpoint sid m" "appendOnly env"
  shows "offsetsAdvance sid m (fst (continueCycle env (Some sid) m)) \<and>
         watchedCoversCheckpoint sid (fst (continueCycle env (Some sid) m)) \<and>
         currentSessionId (fst (continueCycle env (Some sid) m)) = Some sid"
proof (cases "waitingForNewSession m \<and> Some sid = lastProcessedSessionId m")
  case True
  then have "fst (continueCycle env (Some sid) m) = m\<lparr>isProcessing := False\<rparr>"
    by (simp add: continueCycle_def)
  then show ?thesis
    using assms by (simp add: offsetsAdvance_def watchedCoversCheckpoint_def)
next
  case False
  let ?m5 = "fst (planModeTick env (endWaiting (Some sid) m))"
  have m5: "stateStore ?m5 = stateStore m" "currentSessionId ?m5 = Some sid" "watchedFiles ?m5 = watchedFiles m"
    using checkPlanMode_frame [of env "(endWaiting (Some sid) m)\<lparr>lastPlanModeCheck := now env\<rparr>"] assms(1)
    by (simp_all add: planModeTick_def endWaiting_def)
  have c: "watchedCoversCheckpoint sid ?m5"
    using cover_same [of ?m5 m sid] m5 assms(3) by simp
  have a0: "offsetsAdvance sid m ?m5"
    using advance_same [of ?m5 m sid] m5 by simp
  let ?m6 = "fst (processCurrentFiles env (Some sid) ?m5)"
  from processCurrentFiles_offsets [OF m5(2) assms(2) c assms(4)]
  have p: "offsetsAdvance sid ?m5 ?m6" "watchedCoversCheckpoint sid ?m6" "currentSessionId ?m6 = Some sid"
    by blast+
  have res: "fst (continueCycle env (Some sid) m) = ?m6\<lparr>isProcessing := False\<rparr>"
    using False by (auto simp: continueCycle_def split: prod.splits)
  have "offsetsAdvance sid m ?m6"
    using offsetsAdvance_trans [OF a0 p(1)] .
  then have "offsetsAdvance sid m (?m6\<lparr>isProcessing := False\<rparr>)"
    by (simp add: offsetsAdvance_def)
  moreover have "watchedCoversCheckpoint sid (?m6\<lparr>isProcessing := False\<rparr>)"
    using p(2) by (simp add: watchedCoversCheckpoint_def)
  ultimately show ?thesis using res p(3) by simp
qed

lemma cycle_offsets:
  assumes "currentSessionId m = Some sid" and "sid \<noteq> []"
    and "watchedCoversCheckpoint sid m" and "appendOnly env"
    and "resolvedSessionId env m = Some sid"
  shows "offsetsAdvance sid m (fst (checkAndProcess env m)) \<and>
         watchedCoversCheckpoint sid (fst (checkAndProcess env m)) \<and>
         currentSessionId (fst (checkAndProcess env m)) = Some sid"
proof (cases "isProcessing m")
  case True
  then show ?thesis using assms by (simp add: checkAndProcess_def offsetsAdvance_refl)
next
  case False
  let ?m1 = "housekeeping env (m\<lparr>isProcessing := True\<rparr>)"
  let ?force = "shouldForceRefresh env ?m1"
  obtain r m2 evs2 where g: "getCurrentSessionId ?force env ?m1 = (r, m2, evs2)"
    by (cases "getCurrentSessionId ?force env ?m1") auto
  have r: "r = Some sid"
    using assms(5) g by (simp add: resolvedSessionId_def Let_def)
  have h: "stateStore ?m1 = stateStore m"
    "(watchedFiles ?m1 = watchedFiles m \<and> currentSessionId ?m1 = Some sid) \<or>
     (watchedFiles ?m1 = [] \<and> currentSessionId ?m1 = None)"
    using housekeeping_frame [of env "m\<lparr>isProcessing := True\<rparr>"] assms(1) by auto
  from getCurrentSessionId_same [OF g [unfolded r]] h(2)
  have g2: "stateStore m2 = stateStore ?m1" "currentSessionId m2 = Some sid"
    "watchedFiles m2 = watchedFiles ?m1 \<or> watchedFiles m2 = []" by auto
  let ?m3 = "(if ?force then m2\<lparr>lastSessionCheckTime := Some (now env)\<rparr> else m2)"
  have m3: "stateStore ?m3 = stateStore m" "currentSessionId ?m3 = Some sid"
    "watchedFiles ?m3 = watchedFiles m \<or> watchedFiles ?m3 = []"
    using g2 h by auto
  have c3: "watchedCoversCheckpoint sid ?m3"
    using cover_same [of ?m3 m sid] m3 assms(3) by simp
  have a3: "offsetsAdvance sid m ?m3"
    using advance_same [of ?m3 m sid] m3 by simp
  from continueCycle_offsets [OF m3(2) assms(2) c3 assms(4)]
  have p: "offsetsAdvance sid ?m3 (fst (continueCycle env (Some sid) ?m3))"
    "watchedCoversCheckpoint sid (fst (continueCycle env (Some sid) ?m3))"
    "currentSessionId (fst (continueCycle env (Some sid) ?m3)) = Some sid" by blast+
  have res: "fst (checkAndProcess env m) = fst (continueCycle env (Some sid) ?m3)"
    using False g r by (simp add: checkAndProcess_def Let_def split: prod.splits)
  show ?thesis
    unfolding res using p offsetsAdvance_trans [OF a3 p(1)] by simp
qed


lemma project_switch_keeps_store:
  assumes "projectSwitches env m"
  shows "currentSessionId (housekeeping env (m\<lparr>isProcessing := True\<rparr>)) = None \<and>
         stateStore (fst (snd (getCurrentSessionId force env (housekeeping env (m\<lparr>isProcessing := True\<rparr>))))) =
           stateStore m"
proof -
  let ?m1 = "housekeeping env (m\<lparr>isProcessing := True\<rparr>)"
  have h: "currentSessionId ?m1 = None" "stateStore ?m1 = stateStore m"
    using assms
    by (simp_all add: projectSwitches_def housekeeping_def Let_def cleanupProcessedMessages_def
        updateProjectPath_def)
  have "stateStore (fst (snd (getCurrentSessionId force env ?m1))) = stateStore ?m1"
    using h(1)
    by (simp add: getCurrentSessionId_def Let_def clearSessionFiles_def truthy_def
        split: fs_result.splits list.splits)
  with h show ?thesis by simp
qed

text \<open>
  C3 (as the code has it). The monitor is in session \<open>sid\<close>, no watched file is behind the
  checkpoint, the log files are append-only, and the cycle resolves \<open>sid\<close> again. Then
  every persisted offset of the session is still persisted after the cycle and is not
  smaller, no watched file is behind the checkpoint afterwards either (so the next cycle
  starts from the same premises), and \<open>sid\<close> is still the current session. When
  \<^verbatim>\<open>getCurrentSessionId\<close> finds another session than the cached \<open>sid\<close>, no offset of \<open>sid\<close>
  remains in the checkpoint, for any file. But when a cycle finds the tmux pane in
  another project, its housekeeping clears the cached id before the session is resolved,
  and the resolution that follows leaves the whole checkpoint as it was: the offsets of
  the session that was current stay.
\<close>

theorem offsets_monotone_while_current_purged_on_switch:
  assumes "currentSessionId m = Some sid" and "sid \<noteq> []"
    and "watchedCoversCheckpoint sid m" and "appendOnly env"
    and "resolvedSessionId env m = Some sid"
    and "currentSessionId m2 = Some sid"
    and "getCurrentSessionId True env2 m2 = (Some new, m3, evs)" and "new \<noteq> sid"
    and "projectSwitches env4 m4"
  shows "offsetsAdvance sid m (fst (checkAndProcess env m)) \<and>
         watchedCoversCheckpoint sid (fst (checkAndProcess env m)) \<and>
         currentSessionId (fst (checkAndProcess env m)) = Some sid \<and>
         (\<forall>filePath. getFilePosition (Some sid) filePath (stateStore m3) = None) \<and>
         currentSessionId (housekeeping env4 (m4\<lparr>isProcessing := True\<rparr>)) = None \<and>
         stateStore (fst (snd (getCurrentSessionId force env4 (housekeeping env4 (m4\<lparr>isProcessing := True\<rparr>))))) =
           stateStore m4"
proof -
  have s: "stateStore m3 = clearSessionFiles (Some sid) (stateStore m2)"
    using getCurrentSessionId_switch [OF assms(6,7,8)] .
  have "getFilePosition (Some sid) filePath (stateStore m3) = None" for filePath
    using assms(2)
    by (simp add: s clearSessionFiles_def getFilePosition_def map_of_filter_key makeFileKey_def)
  with cycle_offsets [OF assms(1-5)] project_switch_keeps_store [OF assms(9), of force]
  show ?thesis by blast
qed

lemma candsA: "sessionCandidates listingA = [(''A'', 9)]"
  by (simp add: sessionCandidates_def listingA_def isSessionLogName_def suffix_to_prefix)

lemma resolvedA: "resolvedSessionId envA trackedMonitor = Some ''A''"
  by (simp add: resolvedSessionId_def housekeeping_def shouldForceRefresh_def getCurrentSessionId_def
      envA_def emptyEnv_def trackedMonitor_def newMonitor_def candsA truthy_def Let_def)

lemma coverA: "watchedCoversCheckpoint ''A'' trackedMonitor"
  by (auto simp: watchedCoversCheckpoint_def trackedMonitor_def newMonitor_def getFilePosition_def
      makeFileKey_def split: if_splits)

lemma appendOnlyA: "appendOnly envA"
  by (auto simp: appendOnly_def envA_def emptyEnv_def split: if_splits)

lemma candsB: "sessionCandidates listingB = [(''B'', 9)]"
  by (simp add: sessionCandidates_def listingB_def isSessionLogName_def suffix_to_prefix)

lemma paneSwitches: "projectSwitches envSwitch paneMonitor"
  by (simp add: projectSwitches_def envSwitch_def emptyEnv_def paneMonitor_def trackedMonitor_def
      newMonitor_def truthy_def projectPathCheckInterval_def)

text \<open>C3, witness: session \<^verbatim>\<open>A\<close> with its log at offset 10, a cycle that finds the log
  at 14 bytes, a scan that finds session \<^verbatim>\<open>B\<close> more recent, and a cycle that finds the
  pane in another project.\<close>

theorem offsets_monotone_while_current_purged_on_switch_witness:
  "(\<exists>e'. getFilePosition (Some ''A'') ''/p/A.jsonl'' (stateStore (fst (checkAndProcess envA trackedMonitor))) = Some e'
         \<and> 10 \<le> position e') \<and>
   currentSessionId (fst (checkAndProcess envA trackedMonitor)) = Some ''A'' \<and>
   getFilePosition (Some ''A'') ''/p/A.jsonl''
     (stateStore (fst (snd (getCurrentSessionId True envB trackedMonitor)))) = None \<and>
   currentSessionId (housekeeping envSwitch (paneMonitor\<lparr>isProcessing := True\<rparr>)) = None \<and>
   stateStore (fst (snd (getCurrentSessionId True envSwitch
       (housekeeping envSwitch (paneMonitor\<lparr>isProcessing := True\<rparr>))))) = stateStore paneMonitor"
proof -
  have c: "currentSessionId trackedMonitor = Some ''A''"
    by (simp add: trackedMonitor_def)
  have g: "getCurrentSessionId True envB trackedMonitor =
           (Some ''B'', fst (snd (getCurrentSessionId True envB trackedMonitor)), [])"
    by (simp add: getCurrentSessionId_def envB_def emptyEnv_def trackedMonitor_def newMonitor_def candsAB Let_def)
  have e: "getFilePosition (Some ''A'') ''/p/A.jsonl'' (stateStore trackedMonitor) =
           Some \<lparr>position = 10, lastSize = 10, mtime = Some 5, sessionId = Some ''A''\<rparr>"
    by (simp add: trackedMonitor_def getFilePosition_def makeFileKey_def)
  from offsets_monotone_while_current_purged_on_switch
         [OF c _ coverA appendOnlyA resolvedA c g _ paneSwitches, of True]
  have "offsetsAdvance ''A'' trackedMonitor (fst (checkAndProcess envA trackedMonitor)) \<and>
        currentSessionId (fst (checkAndProcess envA trackedMonitor)) = Some ''A'' \<and>
        (\<forall>filePath. getFilePosition (Some ''A'') filePath
            (stateStore (fst (snd (getCurrentSessionId True envB trackedMonitor)))) = None) \<and>
        currentSessionId (housekeeping envSwitch (paneMonitor\<lparr>isProcessing := True\<rparr>)) = None \<and>
        stateStore (fst (snd (getCurrentSessionId True envSwitch
           (housekeeping envSwitch (paneMonitor\<lparr>isProcessing := True\<rparr>))))) = stateStore paneMonitor"
    by simp
  then show ?thesis
    using e unfolding offsetsAdvance_def by fastforce
qed

text \<open>
  C3, counterexample to the claim as stated: the monitor is in session \<^verbatim>\<open>A\<close> with the
  offset 10 of its log in the checkpoint; one cycle finds the pane in another project and
  resolves session \<^verbatim>\<open>B\<close> there. The session has changed, and the offset of \<^verbatim>\<open>A\<close> is
  still in the checkpoint.
\<close>

theorem project_switch_leaves_offsets_counterexample:
  "currentSessionId paneMonitor = Some ''A'' \<and>
   currentSessionId (fst (checkAndProcess envSwitch paneMonitor)) = Some ''B'' \<and>
   getFilePosition (Some ''A'') ''/p/A.jsonl'' (stateStore (fst (checkAndProcess envSwitch paneMonitor))) =
     Some \<lparr>position = 10, lastSize = 10, mtime = Some 5, sessionId = Some ''A''\<rparr>"
proof -
  let ?m1 = "housekeeping envSwitch (paneMonitor\<lparr>isProcessing := True\<rparr>)"
  have j: "pathJoin ''/home/u/.claude/projects'' ''-srv-other'' = ''/home/u/.claude/projects/-srv-other''"
    by (simp add: pathJoin_def pathNormalize_def Let_def)
  have h: "?m1 =
     paneMonitor\<lparr>isProcessing := True, lastProjectPathCheck := 6000, projectPath := ''/srv/other'',
                 currentProject := ''/home/u/.claude/projects/-srv-other'',
                 currentSessionId := None, watchedFiles := []\<rparr>"
    by (simp add: housekeeping_def envSwitch_def emptyEnv_def paneMonitor_def trackedMonitor_def
        newMonitor_def truthy_def orEmpty_def projectPathCheckInterval_def updateProjectPath_def
        projectDirName_def j Let_def)
  have f: "shouldForceRefresh envSwitch ?m1"
    unfolding h by (simp add: shouldForceRefresh_def paneMonitor_def trackedMonitor_def newMonitor_def)
  have g: "getCurrentSessionId True envSwitch ?m1 = (Some ''B'', ?m1\<lparr>currentSessionId := Some ''B''\<rparr>, [])"
    unfolding h
    by (simp add: getCurrentSessionId_def envSwitch_def emptyEnv_def paneMonitor_def trackedMonitor_def
        newMonitor_def candsB truthy_def clearSessionFiles_def Let_def)
  let ?m3 = "?m1\<lparr>currentSessionId := Some ''B'', lastSessionCheckTime := Some 6000\<rparr>"
  have k: "continueCycle envSwitch (Some ''B'') ?m3 = (?m3\<lparr>isProcessing := False\<rparr>, [])"
    unfolding h
    by (simp add: continueCycle_def endWaiting_def planModeTick_def processCurrentFiles_def
        getAllTranscriptFiles_def getCurrentSessionId_def transcriptFilesOf_def envSwitch_def emptyEnv_def
        paneMonitor_def trackedMonitor_def newMonitor_def truthy_def orEmpty_def Let_def)
  have r: "checkAndProcess envSwitch paneMonitor = (?m3\<lparr>isProcessing := False\<rparr>, [])"
    using f g k
    by (simp add: checkAndProcess_def Let_def paneMonitor_def trackedMonitor_def newMonitor_def
        envSwitch_def emptyEnv_def)
  show ?thesis
    unfolding r h
    by (simp add: paneMonitor_def trackedMonitor_def newMonitor_def getFilePosition_def makeFileKey_def)
qed

subsection \<open>Waiting for a new session after a reset\<close>


lemma noReads_simps [simp]:
  "noReads []" "noReads (a @ b) = (noReads a \<and> noReads b)" "noReads (e # evs) = (\<not> isReadEvent e \<and> noReads evs)"
  by (auto simp: noReads_def)

lemma noReads_notifyCallback [simp]: "noReads (notifyCallback cb i)"
  by (simp add: notifyCallback_def split: option.splits)

lemma noReads_sendChunks [simp]: "noReads (sendChunks sender n i cs)"
  by (induction cs arbitrary: i) (simp_all add: Let_def)

lemma noReads_sendToFeishu [simp]: "noReads (sendToFeishu msgr t)"
  by (simp add: sendToFeishu_def Let_def split: option.splits)

lemma noReads_handleInteraction [simp]: "noReads (handleInteraction msgr cb home rp i)"
  by (cases i)
     (auto simp: handleInteraction_def handleAskUserQuestion_def handleExitPlanMode_def loadPlan_def Let_def
       split: option.splits prod.splits if_splits plan_read.splits)

lemma noReads_parseAsk [simp]: "noReads (snd (parseAskUserQuestion data))"
  by (auto simp: parseAskUserQuestion_def split: option.splits block.splits questions_field.splits list.splits question_entry.splits)
































subsection \<open>The split of a long message\<close>

lemma hardSplit_returns:
  assumes "0 < mx"
  shows "\<exists>ps. hardSplit mx line i chunks = Some (chunks @ ps) \<and> list_all (\<lambda>p. length p \<le> mx) ps \<and>
              concat ps = drop i line"
proof (induction "length line - i" arbitrary: i chunks rule: less_induct)
  case less
  show ?case
  proof (cases "i < length line")
    case False
    then show ?thesis by (subst hardSplit.simps) simp
  next
    case True
    then have "length line - (i + mx) < length line - i" using assms by simp
    from less [OF this, of "chunks @ [take mx (drop i line)]"]
    obtain ps where ps: "hardSplit mx line (i + mx) (chunks @ [take mx (drop i line)]) =
        Some ((chunks @ [take mx (drop i line)]) @ ps)" "list_all (\<lambda>p. length p \<le> mx) ps"
        "concat ps = drop (i + mx) line" by blast
    have "hardSplit mx line i chunks = Some (chunks @ (take mx (drop i line) # ps))"
      using True ps(1) by (subst hardSplit.simps) simp
    moreover have "concat (take mx (drop i line) # ps) = drop i line"
      using ps(3) append_take_drop_id [of mx "drop i line"] by (simp add: add.commute)
    ultimately show ?thesis using ps(2) by auto
  qed
qed

lemma split_on_nonempty [simp]: "split_on sep xs \<noteq> []"
  by (induction xs) (auto split: list.splits)

lemma concat_split_on: "concat (split_on sep xs) = filter (\<lambda>c. c \<noteq> sep) xs"
  by (induction xs) (auto split: list.splits)

lemma splitParagraphs_nonempty [simp]: "splitParagraphs xs \<noteq> []"
proof (cases xs)
  case Nil
  then show ?thesis by (simp add: splitParagraphs.simps)
next
  case (Cons c cs)
  then show ?thesis by (cases "splitParagraphs cs") (simp_all add: splitParagraphs.simps)
qed

lemma dropLineFeeds_dropWhile: "dropLineFeeds (dropWhile (\<lambda>d. d = 0x0A) xs) = dropLineFeeds xs"
  by (induction xs) auto

lemma dropLineFeeds_splitParagraphs: "dropLineFeeds (concat (splitParagraphs xs)) = dropLineFeeds xs"
proof (induction xs rule: splitParagraphs.induct)
  case 1
  then show ?case by (simp add: splitParagraphs.simps)
next
  case (2 c cs)
  show ?case
  proof (cases "c = 0x0A \<and> take 1 cs = [0x0A]")
    case True
    then show ?thesis using 2(1) by (simp add: dropLineFeeds_dropWhile splitParagraphs.simps)
  next
    case False
    obtain x xs where s: "splitParagraphs cs = x # xs"
      by (cases "splitParagraphs cs") auto
    have "splitParagraphs (c # cs) = (c # x) # xs"
      using False s by (simp add: splitParagraphs.simps)
    then have "dropLineFeeds (concat (splitParagraphs (c # cs))) = dropLineFeeds [c] @ dropLineFeeds (concat (splitParagraphs cs))"
      using s by simp
    also have "\<dots> = dropLineFeeds [c] @ dropLineFeeds cs"
      using 2(2) False by simp
    also have "\<dots> = dropLineFeeds (c # cs)"
      by simp
    finally show ?thesis .
  qed
qed


lemma lineLoop_returns:
  assumes "0 < mx" "list_all (\<lambda>c. length c \<le> mx) chunks" "length lineChunk \<le> mx"
  shows "\<exists>chunks' cur'. lineLoop mx lines chunks lineChunk = Some (chunks', cur') \<and>
           list_all (\<lambda>c. length c \<le> mx) chunks' \<and> length cur' \<le> mx \<and>
           dropLineFeeds (concat chunks' @ cur') =
             dropLineFeeds (concat chunks @ lineChunk) @ dropLineFeeds (concat lines)"
  using assms(2,3)
proof (induction lines arbitrary: chunks lineChunk)
  case Nil
  then show ?case by simp
next
  case (Cons line lines)
  let ?testLine = "lineChunk @ (if lineChunk \<noteq> [] then [0x0A] else []) @ line"
  show ?case
  proof (cases "length ?testLine \<le> mx")
    case True
    from Cons.IH [OF Cons.prems(1) True]
    obtain chunks' cur' where r: "lineLoop mx lines chunks ?testLine = Some (chunks', cur')"
      "list_all (\<lambda>c. length c \<le> mx) chunks'" "length cur' \<le> mx"
      "dropLineFeeds (concat chunks' @ cur') =
         dropLineFeeds (concat chunks @ ?testLine) @ dropLineFeeds (concat lines)" by blast
    have "lineLoop mx (line # lines) chunks lineChunk = Some (chunks', cur')"
      using True r(1) by (simp add: Let_def)
    then show ?thesis using r(2,3,4) by auto
  next
    case False
    let ?chunks1 = "(if lineChunk \<noteq> [] then chunks @ [lineChunk] else chunks)"
    have c1: "list_all (\<lambda>c. length c \<le> mx) ?chunks1"
      using Cons.prems by simp
    have d1: "dropLineFeeds (concat ?chunks1) = dropLineFeeds (concat chunks @ lineChunk)"
      by simp
    show ?thesis
    proof (cases "length line > mx")
      case True
      from hardSplit_returns [OF assms(1), of line 0 ?chunks1]
      obtain ps where ps: "hardSplit mx line 0 ?chunks1 = Some (?chunks1 @ ps)"
        "list_all (\<lambda>p. length p \<le> mx) ps" "concat ps = line" by auto
      have c2: "list_all (\<lambda>c. length c \<le> mx) (?chunks1 @ ps)"
        using c1 ps(2) by simp
      from Cons.IH [OF c2, of "[]"]
      obtain chunks' cur' where r: "lineLoop mx lines (?chunks1 @ ps) [] = Some (chunks', cur')"
        "list_all (\<lambda>c. length c \<le> mx) chunks'" "length cur' \<le> mx"
        "dropLineFeeds (concat chunks' @ cur') =
           dropLineFeeds (concat (?chunks1 @ ps) @ []) @ dropLineFeeds (concat lines)" by auto
      have "lineLoop mx (line # lines) chunks lineChunk = Some (chunks', cur')"
        using False True ps(1) r(1) by (simp add: Let_def)
      moreover have "dropLineFeeds (concat chunks' @ cur') =
             dropLineFeeds (concat chunks @ lineChunk) @ dropLineFeeds (concat (line # lines))"
        using r(4) ps(3) by simp
      ultimately show ?thesis using r(2,3) by blast
    next
      case nl: False
      then have l: "length line \<le> mx" by simp
      from Cons.IH [OF c1 l]
      obtain chunks' cur' where r: "lineLoop mx lines ?chunks1 line = Some (chunks', cur')"
        "list_all (\<lambda>c. length c \<le> mx) chunks'" "length cur' \<le> mx"
        "dropLineFeeds (concat chunks' @ cur') =
           dropLineFeeds (concat ?chunks1 @ line) @ dropLineFeeds (concat lines)" by blast
      have "lineLoop mx (line # lines) chunks lineChunk = Some (chunks', cur')"
        using False nl r(1) by (simp add: Let_def)
      moreover have "dropLineFeeds (concat chunks' @ cur') =
             dropLineFeeds (concat chunks @ lineChunk) @ dropLineFeeds (concat (line # lines))"
        using r(4) by simp
      ultimately show ?thesis using r(2,3) by blast
    qed
  qed
qed

lemma paraLoop_returns:
  assumes "0 < mx" "list_all (\<lambda>c. length c \<le> mx) chunks" "length currentChunk \<le> mx"
  shows "\<exists>chunks' cur'. paraLoop mx paras chunks currentChunk = Some (chunks', cur') \<and>
           list_all (\<lambda>c. length c \<le> mx) chunks' \<and> length cur' \<le> mx \<and>
           dropLineFeeds (concat chunks' @ cur') =
             dropLineFeeds (concat chunks @ currentChunk) @ dropLineFeeds (concat paras)"
  using assms(2,3)
proof (induction paras arbitrary: chunks currentChunk)
  case Nil
  then show ?case by simp
next
  case (Cons para paras)
  let ?testChunk = "currentChunk @ (if currentChunk \<noteq> [] then [0x0A, 0x0A] else []) @ para"
  show ?case
  proof (cases "length ?testChunk \<le> mx")
    case True
    from Cons.IH [OF Cons.prems(1) True]
    obtain chunks' cur' where r: "paraLoop mx paras chunks ?testChunk = Some (chunks', cur')"
      "list_all (\<lambda>c. length c \<le> mx) chunks'" "length cur' \<le> mx"
      "dropLineFeeds (concat chunks' @ cur') =
         dropLineFeeds (concat chunks @ ?testChunk) @ dropLineFeeds (concat paras)" by blast
    have "paraLoop mx (para # paras) chunks currentChunk = Some (chunks', cur')"
      using True r(1) by (simp add: Let_def)
    then show ?thesis using r(2,3,4) by auto
  next
    case False
    let ?chunks1 = "(if currentChunk \<noteq> [] then chunks @ [currentChunk] else chunks)"
    have c1: "list_all (\<lambda>c. length c \<le> mx) ?chunks1"
      using Cons.prems by simp
    show ?thesis
    proof (cases "length para > mx")
      case True
      from lineLoop_returns [OF assms(1) c1, of "[]" "split_on 0x0A para"]
      obtain chunks2 lineChunk where ll: "lineLoop mx (split_on 0x0A para) ?chunks1 [] = Some (chunks2, lineChunk)"
        "list_all (\<lambda>c. length c \<le> mx) chunks2" "length lineChunk \<le> mx"
        "dropLineFeeds (concat chunks2 @ lineChunk) =
           dropLineFeeds (concat ?chunks1 @ []) @ dropLineFeeds (concat (split_on 0x0A para))" by auto
      from Cons.IH [OF ll(2,3)]
      obtain chunks' cur' where r: "paraLoop mx paras chunks2 lineChunk = Some (chunks', cur')"
        "list_all (\<lambda>c. length c \<le> mx) chunks'" "length cur' \<le> mx"
        "dropLineFeeds (concat chunks' @ cur') =
           dropLineFeeds (concat chunks2 @ lineChunk) @ dropLineFeeds (concat paras)" by blast
      have "paraLoop mx (para # paras) chunks currentChunk = Some (chunks', cur')"
        using False True ll(1) r(1) by (simp add: Let_def)
      moreover have "dropLineFeeds (concat chunks' @ cur') =
             dropLineFeeds (concat chunks @ currentChunk) @ dropLineFeeds (concat (para # paras))"
        using r(4) ll(4) by (simp add: concat_split_on)
      ultimately show ?thesis using r(2,3) by blast
    next
      case nl: False
      then have l: "length para \<le> mx" by simp
      from Cons.IH [OF c1 l]
      obtain chunks' cur' where r: "paraLoop mx paras ?chunks1 para = Some (chunks', cur')"
        "list_all (\<lambda>c. length c \<le> mx) chunks'" "length cur' \<le> mx"
        "dropLineFeeds (concat chunks' @ cur') =
           dropLineFeeds (concat ?chunks1 @ para) @ dropLineFeeds (concat paras)" by blast
      have "paraLoop mx (para # paras) chunks currentChunk = Some (chunks', cur')"
        using False nl r(1) by (simp add: Let_def)
      moreover have "dropLineFeeds (concat chunks' @ cur') =
             dropLineFeeds (concat chunks @ currentChunk) @ dropLineFeeds (concat (para # paras))"
        using r(4) by simp
      ultimately show ?thesis using r(2,3) by blast
    qed
  qed
qed

lemma splitMessage_returns: "splitMessage text MAX_SINGLE_MESSAGE \<noteq> None"
proof -
  have "0 < MAX_SINGLE_MESSAGE" by (simp add: MAX_SINGLE_MESSAGE_def)
  from paraLoop_returns [OF this, of "[]" "[]" "splitParagraphs text"]
  obtain chunks' cur' where "paraLoop MAX_SINGLE_MESSAGE (splitParagraphs text) [] [] = Some (chunks', cur')"
    by auto
  then show ?thesis by (simp add: splitMessage_def Let_def)
qed

lemma lineFeedsOnly_Nil [simp]: "lineFeedsOnly []"
  by (simp add: lineFeedsOnly_def)

lemma lineFeedsOnly_append [simp]: "lineFeedsOnly (a @ b) = (lineFeedsOnly a \<and> lineFeedsOnly b)"
  by (simp add: lineFeedsOnly_def)

lemma weave_snoc:
  "length gaps = Suc (length chunks) \<Longrightarrow> weave (gaps @ [g]) (chunks @ [c]) = weave gaps chunks @ c @ g"
proof (induction chunks arbitrary: gaps)
  case Nil
  then obtain g0 where "gaps = [g0]" by (cases gaps) auto
  then show ?case by simp
next
  case (Cons c0 cs)
  then obtain g0 gs where g: "gaps = g0 # gs" "length gs = Suc (length cs)" by (cases gaps) auto
  then show ?case using Cons.IH [of gs] by simp
qed

lemma weave_last_gap:
  "length gaps = Suc (length chunks) \<Longrightarrow> weave (butlast gaps @ [last gaps @ g]) chunks = weave gaps chunks @ g"
proof (induction chunks arbitrary: gaps)
  case Nil
  then obtain g0 where "gaps = [g0]" by (cases gaps) auto
  then show ?case by simp
next
  case (Cons c0 cs)
  then obtain g0 gs where g: "gaps = g0 # gs" "length gs = Suc (length cs)" by (cases gaps) auto
  then have "gs \<noteq> []" by auto
  then show ?case using g Cons.IH [of gs] by simp
qed

lemma woven_Nil: "lineFeedsOnly g \<Longrightarrow> wovenWithLineFeeds [] g"
  by (rule exI [of _ "[g]"]) simp

lemma woven_snoc:
  assumes "wovenWithLineFeeds chunks pre" "lineFeedsOnly g"
  shows "wovenWithLineFeeds (chunks @ [c]) (pre @ c @ g)"
proof -
  from assms(1) obtain gaps where g: "length gaps = Suc (length chunks)" "list_all lineFeedsOnly gaps"
    "weave gaps chunks = pre" by blast
  show ?thesis
    by (rule exI [of _ "gaps @ [g]"]) (use g assms(2) weave_snoc [OF g(1), of g c] in simp)
qed

lemma woven_gap:
  assumes "wovenWithLineFeeds chunks pre" "lineFeedsOnly g"
  shows "wovenWithLineFeeds chunks (pre @ g)"
proof -
  from assms(1) obtain gaps where g: "length gaps = Suc (length chunks)" "list_all lineFeedsOnly gaps"
    "weave gaps chunks = pre" by blast
  then have ne: "gaps \<noteq> []" by auto
  have l: "lineFeedsOnly (last gaps)" "list_all lineFeedsOnly (butlast gaps)"
    using g(2) ne by (auto simp: list_all_iff dest: in_set_butlastD)
  show ?thesis
    by (rule exI [of _ "butlast gaps @ [last gaps @ g]"])
       (use g ne l assms(2) weave_last_gap [OF g(1), of g] in simp)
qed

lemma woven_pieces:
  "wovenWithLineFeeds chunks pre \<Longrightarrow> wovenWithLineFeeds (chunks @ ps) (pre @ concat ps)"
proof (induction ps arbitrary: chunks pre)
  case Nil
  then show ?case by simp
next
  case (Cons p ps)
  from woven_snoc [OF Cons.prems, of "[]" p]
  have "wovenWithLineFeeds (chunks @ [p]) (pre @ p)" by simp
  from Cons.IH [OF this] show ?case by simp
qed

lemma split_on_joined:
  "(case split_on sep xs of [] \<Rightarrow> [] | l # ls \<Rightarrow> l @ concat (map ((#) sep) ls)) = xs"
  by (induction xs) (auto split: list.splits)

lemma split_on_joined_Nil:
  "(case split_on sep xs of [] \<Rightarrow> [] | l # ls \<Rightarrow> [] @ l @ concat (map ((#) sep) ls)) = xs"
  using split_on_joined [of sep xs] by (cases "split_on sep xs") simp_all

lemma splitParagraphs_joined:
  "(case splitParagraphs xs of [] \<Rightarrow> [] | p # ps \<Rightarrow> p @ concat (map ((@) [0x0A, 0x0A]) ps)) = collapseBlank xs"
proof (induction xs rule: splitParagraphs.induct)
  case 1
  then show ?case by (simp add: splitParagraphs.simps collapseBlank.simps)
next
  case (2 c cs)
  show ?case
  proof (cases "c = 0x0A \<and> take 1 cs = [0x0A]")
    case True
    obtain p ps where s: "splitParagraphs (dropWhile (\<lambda>d. d = 0x0A) cs) = p # ps"
      by (cases "splitParagraphs (dropWhile (\<lambda>d. d = 0x0A) cs)") auto
    have a: "splitParagraphs (c # cs) = [] # p # ps"
      using True s by (simp add: splitParagraphs.simps)
    have b: "collapseBlank (c # cs) = 0x0A # 0x0A # collapseBlank (dropWhile (\<lambda>d. d = 0x0A) cs)"
      using True by (simp add: collapseBlank.simps)
    have "p @ concat (map ((@) [0x0A, 0x0A]) ps) = collapseBlank (dropWhile (\<lambda>d. d = 0x0A) cs)"
      using 2(1) [OF True] s by simp
    then show ?thesis unfolding a b by simp
  next
    case False
    obtain p ps where s: "splitParagraphs cs = p # ps"
      by (cases "splitParagraphs cs") auto
    have a: "splitParagraphs (c # cs) = (c # p) # ps"
      using False s by (simp add: splitParagraphs.simps)
    have b: "collapseBlank (c # cs) = c # collapseBlank cs"
      using False by (subst collapseBlank.simps) auto
    have "p @ concat (map ((@) [0x0A, 0x0A]) ps) = collapseBlank cs"
      using 2(2) [OF False] s by simp
    then show ?thesis unfolding a b by simp
  qed
qed

lemma splitParagraphs_joined_Nil:
  "(case splitParagraphs xs of [] \<Rightarrow> [] | p # ps \<Rightarrow> [] @ p @ concat (map ((@) [0x0A, 0x0A]) ps)) =
     collapseBlank xs"
  using splitParagraphs_joined [of xs] by (cases "splitParagraphs xs") simp_all

lemma lineLoop_woven:
  assumes "0 < mx"
  shows "lineLoop mx lines chunks lc = Some (chunks', lc') \<Longrightarrow> wovenWithLineFeeds chunks pre \<Longrightarrow>
         lineFeedsOnly s \<Longrightarrow> (lc \<noteq> [] \<longrightarrow> s = [0x0A]) \<Longrightarrow>
         \<exists>pre'. wovenWithLineFeeds chunks' pre' \<and>
                pre' @ lc' = pre @ lc @ (case lines of [] \<Rightarrow> [] | l # ls \<Rightarrow> s @ l @ concat (map ((#) 0x0A) ls))"
proof (induction lines arbitrary: chunks lc pre s)
  case Nil
  from Nil(1) have e: "chunks' = chunks" "lc' = lc" by simp_all
  have "wovenWithLineFeeds chunks' pre \<and>
        pre @ lc' = pre @ lc @ (case [] of [] \<Rightarrow> [] | l # ls \<Rightarrow> s @ l @ concat (map ((#) 0x0A) ls))"
    unfolding e using Nil(2) by simp
  then show ?case by (rule exI)
next
  case (Cons line lines)
  let ?testLine = "lc @ (if lc \<noteq> [] then [0x0A] else []) @ line"
  let ?rest = "(case lines of [] \<Rightarrow> [] | l # ls \<Rightarrow> [0x0A] @ l @ concat (map ((#) 0x0A) ls))"
  have rest: "?rest = concat (map ((#) 0x0A) lines)"
    by (cases lines) simp_all
  have s1: "lineFeedsOnly [0x0A]" by (simp add: lineFeedsOnly_def)
  have t: "x \<noteq> [] \<longrightarrow> [0x0A] = [0x0A :: nat]" for x :: ustring by simp
  have goal: "\<exists>pre'. wovenWithLineFeeds chunks' pre' \<and>
                pre' @ lc' = pre @ lc @ s @ line @ concat (map ((#) 0x0A) lines) \<Longrightarrow> ?case"
    by simp
  show ?case
  proof (rule goal, cases "length ?testLine \<le> mx")
    case True
    then have r: "lineLoop mx lines chunks ?testLine = Some (chunks', lc')"
      using Cons.prems(1) by (simp add: Let_def)
    show "\<exists>pre'. wovenWithLineFeeds chunks' pre' \<and>
                pre' @ lc' = pre @ lc @ s @ line @ concat (map ((#) 0x0A) lines)"
    proof (cases "lc = []")
      case True
      have w: "wovenWithLineFeeds chunks (pre @ s)"
        using Cons.prems(2,3) by (rule woven_gap)
      have r': "lineLoop mx lines chunks line = Some (chunks', lc')"
        using r True by simp
      from Cons.IH [OF r' w s1 t]
      obtain pre' where a: "wovenWithLineFeeds chunks' pre'" and b: "pre' @ lc' = (pre @ s) @ line @ ?rest"
        by blast
      have "pre' @ lc' = pre @ lc @ s @ line @ concat (map ((#) 0x0A) lines)"
        unfolding b rest True by simp
      with a have "wovenWithLineFeeds chunks' pre' \<and>
                   pre' @ lc' = pre @ lc @ s @ line @ concat (map ((#) 0x0A) lines)" by (rule conjI)
      then show ?thesis by (rule exI)
    next
      case False
      then have s: "s = [0x0A]" using Cons.prems(4) by simp
      from Cons.IH [OF r Cons.prems(2) s1 t]
      obtain pre' where a: "wovenWithLineFeeds chunks' pre'" and b: "pre' @ lc' = pre @ ?testLine @ ?rest"
        by blast
      have "pre' @ lc' = pre @ lc @ s @ line @ concat (map ((#) 0x0A) lines)"
        unfolding b rest s using False by simp
      with a have "wovenWithLineFeeds chunks' pre' \<and>
                   pre' @ lc' = pre @ lc @ s @ line @ concat (map ((#) 0x0A) lines)" by (rule conjI)
      then show ?thesis by (rule exI)
    qed
  next
    case False
    let ?chunks1 = "(if lc \<noteq> [] then chunks @ [lc] else chunks)"
    have w1: "wovenWithLineFeeds ?chunks1 (pre @ lc @ s)"
    proof (cases "lc = []")
      case True
      have "wovenWithLineFeeds chunks (pre @ s)" using Cons.prems(2,3) by (rule woven_gap)
      then show ?thesis unfolding True by simp
    next
      case False
      have "wovenWithLineFeeds (chunks @ [lc]) (pre @ lc @ s)" using Cons.prems(2,3) by (rule woven_snoc)
      then show ?thesis using False by simp
    qed
    show "\<exists>pre'. wovenWithLineFeeds chunks' pre' \<and>
                pre' @ lc' = pre @ lc @ s @ line @ concat (map ((#) 0x0A) lines)"
    proof (cases "length line > mx")
      case True
      from hardSplit_returns [OF assms, of line 0 ?chunks1]
      obtain ps where ps: "hardSplit mx line 0 ?chunks1 = Some (?chunks1 @ ps)" "concat ps = line" by auto
      have r: "lineLoop mx lines (?chunks1 @ ps) [] = Some (chunks', lc')"
        using Cons.prems(1) False True ps(1) by (simp add: Let_def)
      have "wovenWithLineFeeds (?chunks1 @ ps) ((pre @ lc @ s) @ concat ps)"
        using w1 by (rule woven_pieces)
      then have w2: "wovenWithLineFeeds (?chunks1 @ ps) ((pre @ lc @ s) @ line)"
        unfolding ps(2) .
      from Cons.IH [OF r w2 s1 t]
      obtain pre' where a: "wovenWithLineFeeds chunks' pre'"
        and b: "pre' @ lc' = ((pre @ lc @ s) @ line) @ [] @ ?rest"
        by blast
      have "pre' @ lc' = pre @ lc @ s @ line @ concat (map ((#) 0x0A) lines)"
        unfolding b rest by simp
      with a have "wovenWithLineFeeds chunks' pre' \<and>
                   pre' @ lc' = pre @ lc @ s @ line @ concat (map ((#) 0x0A) lines)" by (rule conjI)
      then show ?thesis by (rule exI)
    next
      case nl: False
      have r: "lineLoop mx lines ?chunks1 line = Some (chunks', lc')"
        using Cons.prems(1) False nl by (simp add: Let_def)
      from Cons.IH [OF r w1 s1 t]
      obtain pre' where a: "wovenWithLineFeeds chunks' pre'"
        and b: "pre' @ lc' = (pre @ lc @ s) @ line @ ?rest"
        by blast
      have "pre' @ lc' = pre @ lc @ s @ line @ concat (map ((#) 0x0A) lines)"
        unfolding b rest by simp
      with a have "wovenWithLineFeeds chunks' pre' \<and>
                   pre' @ lc' = pre @ lc @ s @ line @ concat (map ((#) 0x0A) lines)" by (rule conjI)
      then show ?thesis by (rule exI)
    qed
  qed
qed

lemma paraLoop_woven:
  assumes "0 < mx"
  shows "paraLoop mx paras chunks cur = Some (chunks', cur') \<Longrightarrow> wovenWithLineFeeds chunks pre \<Longrightarrow>
         lineFeedsOnly s \<Longrightarrow> (cur \<noteq> [] \<longrightarrow> s = [0x0A, 0x0A]) \<Longrightarrow>
         \<exists>pre'. wovenWithLineFeeds chunks' pre' \<and>
                pre' @ cur' =
                  pre @ cur @ (case paras of [] \<Rightarrow> [] | p # ps \<Rightarrow> s @ p @ concat (map ((@) [0x0A, 0x0A]) ps))"
proof (induction paras arbitrary: chunks cur pre s)
  case Nil
  from Nil(1) have e: "chunks' = chunks" "cur' = cur" by simp_all
  have "wovenWithLineFeeds chunks' pre \<and>
        pre @ cur' = pre @ cur @ (case [] of [] \<Rightarrow> [] | p # ps \<Rightarrow> s @ p @ concat (map ((@) [0x0A, 0x0A]) ps))"
    unfolding e using Nil(2) by simp
  then show ?case by (rule exI)
next
  case (Cons para paras)
  let ?testChunk = "cur @ (if cur \<noteq> [] then [0x0A, 0x0A] else []) @ para"
  let ?rest = "(case paras of [] \<Rightarrow> [] | p # ps \<Rightarrow> [0x0A, 0x0A] @ p @ concat (map ((@) [0x0A, 0x0A]) ps))"
  have rest: "?rest = concat (map ((@) [0x0A, 0x0A]) paras)"
    by (cases paras) simp_all
  have s1: "lineFeedsOnly [0x0A, 0x0A]" by (simp add: lineFeedsOnly_def)
  have t: "x \<noteq> [] \<longrightarrow> [0x0A, 0x0A] = [0x0A, 0x0A :: nat]" for x :: ustring by simp
  have goal: "\<exists>pre'. wovenWithLineFeeds chunks' pre' \<and>
                pre' @ cur' = pre @ cur @ s @ para @ concat (map ((@) [0x0A, 0x0A]) paras) \<Longrightarrow> ?case"
    by simp
  show ?case
  proof (rule goal, cases "length ?testChunk \<le> mx")
    case True
    then have r: "paraLoop mx paras chunks ?testChunk = Some (chunks', cur')"
      using Cons.prems(1) by (simp add: Let_def)
    show "\<exists>pre'. wovenWithLineFeeds chunks' pre' \<and>
                pre' @ cur' = pre @ cur @ s @ para @ concat (map ((@) [0x0A, 0x0A]) paras)"
    proof (cases "cur = []")
      case True
      have w: "wovenWithLineFeeds chunks (pre @ s)"
        using Cons.prems(2,3) by (rule woven_gap)
      have r': "paraLoop mx paras chunks para = Some (chunks', cur')"
        using r True by simp
      from Cons.IH [OF r' w s1 t]
      obtain pre' where a: "wovenWithLineFeeds chunks' pre'" and b: "pre' @ cur' = (pre @ s) @ para @ ?rest"
        by blast
      have "pre' @ cur' = pre @ cur @ s @ para @ concat (map ((@) [0x0A, 0x0A]) paras)"
        unfolding b rest True by simp
      with a have "wovenWithLineFeeds chunks' pre' \<and>
                   pre' @ cur' = pre @ cur @ s @ para @ concat (map ((@) [0x0A, 0x0A]) paras)" by (rule conjI)
      then show ?thesis by (rule exI)
    next
      case False
      then have s: "s = [0x0A, 0x0A]" using Cons.prems(4) by simp
      from Cons.IH [OF r Cons.prems(2) s1 t]
      obtain pre' where a: "wovenWithLineFeeds chunks' pre'" and b: "pre' @ cur' = pre @ ?testChunk @ ?rest"
        by blast
      have "pre' @ cur' = pre @ cur @ s @ para @ concat (map ((@) [0x0A, 0x0A]) paras)"
        unfolding b rest s using False by simp
      with a have "wovenWithLineFeeds chunks' pre' \<and>
                   pre' @ cur' = pre @ cur @ s @ para @ concat (map ((@) [0x0A, 0x0A]) paras)" by (rule conjI)
      then show ?thesis by (rule exI)
    qed
  next
    case False
    let ?chunks1 = "(if cur \<noteq> [] then chunks @ [cur] else chunks)"
    have w1: "wovenWithLineFeeds ?chunks1 (pre @ cur @ s)"
    proof (cases "cur = []")
      case True
      have "wovenWithLineFeeds chunks (pre @ s)" using Cons.prems(2,3) by (rule woven_gap)
      then show ?thesis unfolding True by simp
    next
      case False
      have "wovenWithLineFeeds (chunks @ [cur]) (pre @ cur @ s)" using Cons.prems(2,3) by (rule woven_snoc)
      then show ?thesis using False by simp
    qed
    show "\<exists>pre'. wovenWithLineFeeds chunks' pre' \<and>
                pre' @ cur' = pre @ cur @ s @ para @ concat (map ((@) [0x0A, 0x0A]) paras)"
    proof (cases "length para > mx")
      case True
      obtain chunks2 lineChunk where ll: "lineLoop mx (split_on 0x0A para) ?chunks1 [] = Some (chunks2, lineChunk)"
        using Cons.prems(1) False True by (auto simp: Let_def split: option.splits)
      have r: "paraLoop mx paras chunks2 lineChunk = Some (chunks', cur')"
        using Cons.prems(1) False True ll by (simp add: Let_def)
      have t0: "([] :: ustring) \<noteq> [] \<longrightarrow> [] = [0x0A :: nat]" by simp
      from lineLoop_woven [OF assms ll w1 lineFeedsOnly_Nil t0]
      obtain pre2 where p2: "wovenWithLineFeeds chunks2 pre2"
        and q2: "pre2 @ lineChunk =
                 (pre @ cur @ s) @ [] @
                 (case split_on 0x0A para of [] \<Rightarrow> [] | l # ls \<Rightarrow> [] @ l @ concat (map ((#) 0x0A) ls))"
        by blast
      have q: "pre2 @ lineChunk = pre @ cur @ s @ para"
        unfolding q2 split_on_joined_Nil by simp
      from Cons.IH [OF r p2 s1 t]
      obtain pre' where a: "wovenWithLineFeeds chunks' pre'" and b: "pre' @ cur' = pre2 @ lineChunk @ ?rest"
        by blast
      have "pre' @ cur' = (pre2 @ lineChunk) @ ?rest" using b by simp
      then have "pre' @ cur' = pre @ cur @ s @ para @ concat (map ((@) [0x0A, 0x0A]) paras)"
        unfolding q rest by simp
      with a have "wovenWithLineFeeds chunks' pre' \<and>
                   pre' @ cur' = pre @ cur @ s @ para @ concat (map ((@) [0x0A, 0x0A]) paras)" by (rule conjI)
      then show ?thesis by (rule exI)
    next
      case nl: False
      have r: "paraLoop mx paras ?chunks1 para = Some (chunks', cur')"
        using Cons.prems(1) False nl by (simp add: Let_def)
      from Cons.IH [OF r w1 s1 t]
      obtain pre' where a: "wovenWithLineFeeds chunks' pre'"
        and b: "pre' @ cur' = (pre @ cur @ s) @ para @ ?rest"
        by blast
      have "pre' @ cur' = pre @ cur @ s @ para @ concat (map ((@) [0x0A, 0x0A]) paras)"
        unfolding b rest by simp
      with a have "wovenWithLineFeeds chunks' pre' \<and>
                   pre' @ cur' = pre @ cur @ s @ para @ concat (map ((@) [0x0A, 0x0A]) paras)" by (rule conjI)
      then show ?thesis by (rule exI)
    qed
  qed
qed

lemma lineFeedsOnly_collapse: "lineFeedsOnly (collapseBlank xs) \<Longrightarrow> lineFeedsOnly xs"
proof (induction xs rule: collapseBlank.induct)
  case 1
  then show ?case by simp
next
  case (2 c cs)
  show ?case
  proof (cases "c = 0x0A \<and> take 1 cs = [0x0A]")
    case True
    then have "collapseBlank (c # cs) = 0x0A # 0x0A # collapseBlank (dropWhile (\<lambda>d. d = 0x0A) cs)"
      by (subst collapseBlank.simps) simp
    with 2(3) have "lineFeedsOnly (collapseBlank (dropWhile (\<lambda>d. d = 0x0A) cs))"
      by (simp add: lineFeedsOnly_def)
    from 2(1) [OF True this] have d: "lineFeedsOnly (dropWhile (\<lambda>d. d = 0x0A) cs)" .
    have "list_all (\<lambda>x. x = 0x0A) cs"
      using d set_takeWhileD [of _ "\<lambda>d. d = 0x0A" cs] takeWhile_dropWhile_id [of "\<lambda>d. d = 0x0A" cs]
      unfolding lineFeedsOnly_def list_all_iff
      by (metis Un_iff set_append)
    then show ?thesis using True by (simp add: lineFeedsOnly_def)
  next
    case False
    then have "collapseBlank (c # cs) = c # collapseBlank cs"
      by (subst collapseBlank.simps) auto
    with 2(3) have "c = 0x0A" "lineFeedsOnly (collapseBlank cs)"
      by (simp_all add: lineFeedsOnly_def)
    with 2(2) [OF False] show ?thesis by (simp add: lineFeedsOnly_def)
  qed
qed

text \<open>
  C6 (as the code has it). For a positive maximum, \<^verbatim>\<open>splitMessage\<close> returns a non-empty
  list of chunks, each of length at most the maximum. A text no longer than the maximum is
  returned whole, as the only chunk. For a longer text, take the text with every run of
  two or more line feeds replaced by exactly two: it is the chunks, in order, woven with
  gaps that consist of line feeds only, one gap before each chunk and one after the last.
  So inside a chunk nothing is dropped or altered but for the collapse of blank-line runs,
  and what is dropped are the line feeds between two chunks and at the two ends of the
  text. (The one exception is a long text of line feeds only, of which the first
  \<open>maxLength\<close> are returned as a single chunk.) In particular every unit other than a line
  feed is kept, in order.
\<close>

theorem split_is_bounded_and_keeps_all_but_line_feeds:
  assumes "0 < maxLength"
  shows "\<exists>chunks. splitMessage text maxLength = Some chunks \<and> chunks \<noteq> [] \<and>
           list_all (\<lambda>c. length c \<le> maxLength) chunks \<and>
           dropLineFeeds (concat chunks) = dropLineFeeds text \<and>
           (if length text \<le> maxLength then chunks = [text]
            else wovenWithLineFeeds chunks (collapseBlank text) \<or>
                 (lineFeedsOnly text \<and> chunks = [take maxLength text]))"
proof (cases "length text \<le> maxLength")
  case True
  then show ?thesis by (simp add: splitMessage_def)
next
  case False
  from paraLoop_returns [OF assms, of "[]" "[]" "splitParagraphs text"]
  obtain chunks' cur' where r: "paraLoop maxLength (splitParagraphs text) [] [] = Some (chunks', cur')"
    "list_all (\<lambda>c. length c \<le> maxLength) chunks'" "length cur' \<le> maxLength"
    "dropLineFeeds (concat chunks' @ cur') = dropLineFeeds (concat (splitParagraphs text))" by auto
  let ?chunks1 = "(if cur' \<noteq> [] then chunks' @ [cur'] else chunks')"
  have d: "dropLineFeeds (concat ?chunks1) = dropLineFeeds text"
    using r(4) by (auto simp: dropLineFeeds_splitParagraphs)
  have b: "list_all (\<lambda>c. length c \<le> maxLength) ?chunks1"
    using r(2,3) by simp
  have w0: "wovenWithLineFeeds [] []" using lineFeedsOnly_Nil by (rule woven_Nil)
  have t0: "([] :: ustring) \<noteq> [] \<longrightarrow> [] = [0x0A, 0x0A :: nat]" by simp
  from paraLoop_woven [OF assms r(1) w0 lineFeedsOnly_Nil t0]
  obtain pre' where a: "wovenWithLineFeeds chunks' pre'"
    and q0: "pre' @ cur' = [] @ [] @
       (case splitParagraphs text of [] \<Rightarrow> [] | p # ps \<Rightarrow> [] @ p @ concat (map ((@) [0x0A, 0x0A]) ps))"
    by blast
  have q: "pre' @ cur' = collapseBlank text"
    unfolding q0 splitParagraphs_joined_Nil by simp
  have w: "wovenWithLineFeeds ?chunks1 (collapseBlank text)"
  proof (cases "cur' = []")
    case True
    then show ?thesis using a q by simp
  next
    case False
    have "wovenWithLineFeeds (chunks' @ [cur']) (pre' @ cur' @ [])"
      using a lineFeedsOnly_Nil by (rule woven_snoc)
    then show ?thesis using False q by simp
  qed
  show ?thesis
  proof (cases "?chunks1 = []")
    case True
    with w have "wovenWithLineFeeds [] (collapseBlank text)" by simp
    then have "lineFeedsOnly (collapseBlank text)"
      by (auto simp: length_Suc_conv)
    then have lf: "lineFeedsOnly text" by (rule lineFeedsOnly_collapse)
    then have "dropLineFeeds text = []"
      by (simp add: lineFeedsOnly_def list_all_iff filter_empty_conv)
    then have "dropLineFeeds (take maxLength text) = []"
      by (metis filter_empty_conv in_set_takeD)
    moreover have "splitMessage text maxLength = Some [take maxLength text]"
      using False r(1) True by (simp add: splitMessage_def Let_def)
    ultimately show ?thesis using False lf \<open>dropLineFeeds text = []\<close> by simp
  next
    case ne: False
    have "splitMessage text maxLength = Some ?chunks1"
      using False r(1) ne by (simp add: splitMessage_def Let_def)
    then show ?thesis using ne b d w False by simp
  qed
qed

text \<open>C6, witness: two paragraphs of 10000 units, split at the maximum of 15000.\<close>

theorem split_is_bounded_and_keeps_all_but_line_feeds_witness:
  "\<exists>chunks. splitMessage twoParagraphs MAX_SINGLE_MESSAGE = Some chunks \<and> chunks \<noteq> [] \<and>
      list_all (\<lambda>c. length c \<le> MAX_SINGLE_MESSAGE) chunks \<and>
      dropLineFeeds (concat chunks) = dropLineFeeds twoParagraphs \<and>
      (wovenWithLineFeeds chunks (collapseBlank twoParagraphs) \<or>
       (lineFeedsOnly twoParagraphs \<and> chunks = [take MAX_SINGLE_MESSAGE twoParagraphs]))"
proof -
  have p: "0 < MAX_SINGLE_MESSAGE" by (simp add: MAX_SINGLE_MESSAGE_def)
  have l: "\<not> length twoParagraphs \<le> MAX_SINGLE_MESSAGE"
    by (simp add: twoParagraphs_def MAX_SINGLE_MESSAGE_def)
  from split_is_bounded_and_keeps_all_but_line_feeds [OF p, of twoParagraphs]
  show ?thesis unfolding if_not_P [OF l] .
qed

lemma splitParagraphs_plain:
  assumes "0x0A \<notin> set xs"
  shows "splitParagraphs (xs @ rest) = (case splitParagraphs rest of [] \<Rightarrow> [xs] | p # ps \<Rightarrow> (xs @ p) # ps)"
  using assms
proof (induction xs)
  case Nil
  then show ?case by (cases "splitParagraphs rest") simp_all
next
  case (Cons c cs)
  then have c: "c \<noteq> 0x0A" and ih: "splitParagraphs (cs @ rest) =
      (case splitParagraphs rest of [] \<Rightarrow> [cs] | p # ps \<Rightarrow> (cs @ p) # ps)" by simp_all
  obtain p ps where r: "splitParagraphs rest = p # ps"
    by (cases "splitParagraphs rest") auto
  show ?case
    using c ih r by (simp add: splitParagraphs.simps)
qed

lemma splitParagraphs_two: "splitParagraphs twoParagraphs = [replicate 10000 97, replicate 10000 98]"
proof -
  have b: "splitParagraphs (replicate 10000 98) = [replicate 10000 98]"
    using splitParagraphs_plain [of "replicate 10000 98" "[]"] by (simp add: splitParagraphs.simps)
  have "dropWhile (\<lambda>d. d = 0x0A) (0x0A # replicate 10000 (98::nat)) = replicate 10000 98"
    by (simp add: dropWhile_replicate)
  then have s: "splitParagraphs (0x0A # 0x0A # replicate 10000 98) = [[], replicate 10000 98]"
    using b by (simp add: splitParagraphs.simps)
  show ?thesis
    unfolding twoParagraphs_def
    using splitParagraphs_plain [of "replicate 10000 97" "[0x0A, 0x0A] @ replicate 10000 98"] s
    by simp
qed

text \<open>The two paragraphs: the text is the two chunks woven with the blank line between
  them, which is the gap that the split drops.\<close>

lemma two_paragraphs_woven:
  "splitMessage twoParagraphs MAX_SINGLE_MESSAGE = Some [replicate 10000 97, replicate 10000 98] \<and>
   weave [[], [0x0A, 0x0A], []] [replicate 10000 97, replicate 10000 98] = collapseBlank twoParagraphs"
proof -
  have l: "length twoParagraphs = 20002"
    by (simp add: twoParagraphs_def)
  have s: "splitMessage twoParagraphs MAX_SINGLE_MESSAGE = Some [replicate 10000 97, replicate 10000 98]"
    by (simp add: splitMessage_def l splitParagraphs_two MAX_SINGLE_MESSAGE_def Let_def)
  have "collapseBlank twoParagraphs = replicate 10000 97 @ [0x0A, 0x0A] @ replicate 10000 98"
    using splitParagraphs_joined [of twoParagraphs] by (simp add: splitParagraphs_two)
  then show ?thesis using s by simp
qed

text \<open>C6, counterexample to the claim as stated: the two paragraphs become two chunks,
  and their concatenation has lost the blank line between them.\<close>

theorem split_round_trip_counterexample:
  "splitMessage twoParagraphs MAX_SINGLE_MESSAGE = Some [replicate 10000 97, replicate 10000 98] \<and>
   concat [replicate 10000 97, replicate 10000 98] \<noteq> twoParagraphs"
proof -
  have l: "length twoParagraphs = 20002"
    by (simp add: twoParagraphs_def)
  have "splitMessage twoParagraphs MAX_SINGLE_MESSAGE = Some [replicate 10000 97, replicate 10000 98]"
    by (simp add: splitMessage_def l splitParagraphs_two MAX_SINGLE_MESSAGE_def Let_def)
  moreover have "concat [replicate 10000 (97::nat), replicate 10000 98] \<noteq> twoParagraphs"
  proof
    assume "concat [replicate 10000 (97::nat), replicate 10000 98] = twoParagraphs"
    then have "length (concat [replicate 10000 (97::nat), replicate 10000 98]) = length twoParagraphs"
      by (rule arg_cong)
    then show False unfolding l by simp
  qed
  ultimately show ?thesis by simp
qed

text \<open>What the messenger is given for the two paragraphs.\<close>

lemma two_paragraphs_sent:
  "sendToFeishu (Some workingMessenger) twoParagraphs =
     [SendText (chunkPrefix 0 2 @ replicate 10000 97) SendOk, Sleep 300,
      SendText (chunkPrefix 1 2 @ replicate 10000 98) SendOk]"
proof -
  have l: "length twoParagraphs = 20002"
    by (simp add: twoParagraphs_def)
  have s: "splitMessage twoParagraphs MAX_SINGLE_MESSAGE = Some [replicate 10000 97, replicate 10000 98]"
    by (simp add: splitMessage_def l splitParagraphs_two MAX_SINGLE_MESSAGE_def Let_def)
  show ?thesis
    by (simp add: sendToFeishu_def l s SPLIT_THRESHOLD_def workingMessenger_def Let_def numeral_2_eq_2)
qed

text \<open>
  C8 (as the code has it). A record whose first AskUserQuestion tool-use block has no
  input, no \<^verbatim>\<open>questions\<close> list, a \<^verbatim>\<open>questions\<close> value that is not an array, or an empty
  one, is classified as suppressed with one warning logged, and processing its line
  sends nothing: the only effect, if any, is that warning. (It is the \<^verbatim>\<open>questions\<close>
  list whose absence suppresses the record; a question without \<^verbatim>\<open>options\<close> is still
  interactive, with an empty option list.)
\<close>

theorem ask_without_questions_is_suppressed:
  assumes "contentArray data = Some bs"
    and "find isAskBlock bs = Some (ToolUse n inp)"
    and "inp = None \<or> inp = Some QMissing \<or> inp = Some QNotArray \<or> inp = Some (QArray [])"
    and "jsonParse env line = Some data"
  shows "shouldSendMessage data = (\<lparr>send = False, sd_interaction = None, pureText = False\<rparr>, [Log Warn])
         \<and> set (snd (processLine env line m)) \<subseteq> {Log Warn}"
proof -
  from assms(2) have ex: "list_ex isAskBlock bs" "list_ex isToolUseBlock bs"
    using find_ask_ex by blast+
  have ask: "isAskUserQuestion data"
    using assms(1) ex by (simp add: isAskUserQuestion_def)
  have p: "parseAskUserQuestion data = (None, [Log Warn])"
    using assms(1,2,3) ask by (auto simp: parseAskUserQuestion_def orEmpty_def)
  have np: "\<not> isPureText data"
    using assms(1) ex by (simp add: isPureText_def hasToolUse_def)
  have s: "shouldSendMessage data = (\<lparr>send = False, sd_interaction = None, pureText = False\<rparr>, [Log Warn])"
    using ask p np by (simp add: shouldSendMessage_def parse_def)
  obtain b m1 where n: "isNewAssistantMessage data (now env) m = (b, m1)"
    by (cases "isNewAssistantMessage data (now env) m") auto
  have "set (snd (processLine env line m)) \<subseteq> {Log Warn}"
    using assms(4) s n by (cases b) (simp_all add: processLine_def)
  with s show ?thesis by simp
qed

text \<open>C8, witness: a record with a text block and an AskUserQuestion block whose input
  has no \<^verbatim>\<open>questions\<close>.\<close>

theorem ask_without_questions_witness:
  "shouldSendMessage askNoQuestions = (\<lparr>send = False, sd_interaction = None, pureText = False\<rparr>, [Log Warn])
   \<and> set (snd (processLine (emptyEnv\<lparr>jsonParse := (\<lambda>l. Some askNoQuestions)\<rparr>) (asc ''{}'')
                 (newMonitor (Some workingMessenger)))) \<subseteq> {Log Warn}"
  using ask_without_questions_is_suppressed [of askNoQuestions
      "[TextBlock (Some (asc ''hi'')), ToolUse ''AskUserQuestion'' (Some QMissing)]" "''AskUserQuestion''" "Some QMissing"
      "emptyEnv\<lparr>jsonParse := (\<lambda>l. Some askNoQuestions)\<rparr>" "asc ''{}''" "newMonitor (Some workingMessenger)"]
  by (simp add: askNoQuestions_def contentArray_def)

text \<open>C8, counterexample to the claim as stated: the question
  \<^verbatim>\<open>{question: "Proceed?"}\<close> has no \<^verbatim>\<open>options\<close>, and the record is classified as an
  interaction to send, with no option and nothing logged.\<close>

theorem ask_missing_options_counterexample:
  "shouldSendMessage askNoOptions =
     (\<lparr>send = True,
       sd_interaction = Some (AskUserQuestion (Some ''u1'')
          \<lparr>q_text = asc ''Proceed?'', q_header = [], q_options = [], q_multiSelect = False\<rparr>),
       pureText = False\<rparr>, [])"
  by (simp add: askNoOptions_def shouldSendMessage_def parse_def parseAskUserQuestion_def
      isAskUserQuestion_def contentArray_def orEmpty_def)

subsection \<open>What the reader returns\<close>

lemma split_on_append:
  "split_on s (a @ b) = butlast (split_on s a) @ split_on s (last (split_on s a) @ b)"
proof (induction a)
  case Nil
  then show ?case by simp
next
  case (Cons c cs)
  obtain x xs where sp: "split_on s cs = x # xs"
    by (cases "split_on s cs") auto
  obtain y ys where sq: "split_on s (cs @ b) = y # ys"
    by (cases "split_on s (cs @ b)") auto
  show ?case
  proof (cases "c = s")
    case True
    then show ?thesis using Cons by simp
  next
    case False
    show ?thesis
    proof (cases xs)
      case Nil
      then show ?thesis using False Cons sp sq
        by (simp split: list.splits)
    next
      case (Cons x2 xs2)
      then show ?thesis using False Cons.IH sp sq
        by (simp split: list.splits)
    qed
  qed
qed

lemma butlast_split_on_append:
  "butlast (split_on s (a @ b)) = butlast (split_on s a) @ butlast (split_on s (last (split_on s a) @ b))"
  by (subst split_on_append) (simp add: butlast_append)

lemma last_split_on_append:
  "last (split_on s (a @ b)) = last (split_on s (last (split_on s a) @ b))"
  by (subst split_on_append) simp

lemma split_on_no_sep: "s \<notin> set xs \<Longrightarrow> split_on s xs = [xs]"
  by (induction xs) auto

lemma last_split_on_no_sep: "s \<notin> set (last (split_on s xs))"
proof (induction xs)
  case Nil
  then show ?case by simp
next
  case (Cons c cs)
  obtain x xs' where sp: "split_on s cs = x # xs'"
    by (cases "split_on s cs") auto
  show ?case using Cons sp by (cases xs') auto
qed

lemma readLoop_eq:
  assumes "pos + remaining \<le> length bytes" "0x0A \<notin> set partialLine"
  shows "readLoop bytes remaining pos partialLine lines =
     (lines @ filter nonBlank (butlast (split_on 0x0A
          (partialLine @ decodeChunks CHUNK_SIZE (take remaining (drop pos bytes))))),
      last (split_on 0x0A (partialLine @ decodeChunks CHUNK_SIZE (take remaining (drop pos bytes)))))"
  using assms
proof (induction remaining arbitrary: pos partialLine lines rule: less_induct)
  case (less remaining)
  show ?case
  proof (cases "remaining = 0")
    case True
    then show ?thesis
      using less.prems(2)
      by (subst readLoop.simps) (simp add: decodeChunks.simps split_on_no_sep)
  next
    case False
    let ?readSize = "min CHUNK_SIZE remaining"
    let ?buffer = "take ?readSize (drop pos bytes)"
    have rs: "0 < ?readSize" using False by (simp add: CHUNK_SIZE_def)
    have lb: "length ?buffer = ?readSize"
      using less.prems by simp
    let ?chunk = "utf8_decode ?buffer"
    let ?rest = "take (remaining - ?readSize) (drop (pos + ?readSize) bytes)"
    have dc: "decodeChunks CHUNK_SIZE (take remaining (drop pos bytes)) =
              ?chunk @ decodeChunks CHUNK_SIZE ?rest"
    proof -
      have ne: "take remaining (drop pos bytes) \<noteq> []"
        using False less.prems by auto
      have t: "take CHUNK_SIZE (take remaining (drop pos bytes)) = ?buffer"
        by (simp add: min.commute)
      have d: "drop CHUNK_SIZE (take remaining (drop pos bytes)) = ?rest"
        by (cases "CHUNK_SIZE \<le> remaining") (simp_all add: drop_take add.commute min_def)
      have cs: "CHUNK_SIZE \<noteq> 0" by (simp add: CHUNK_SIZE_def)
      show ?thesis
        using ne cs by (subst decodeChunks.simps) (simp add: t d del: take_take)
    qed
    have lt: "remaining - ?readSize < remaining" using rs False by simp
    have bound: "(pos + ?readSize) + (remaining - ?readSize) \<le> length bytes"
      using less.prems by simp
    note ih = less.IH [OF lt bound last_split_on_no_sep]
    have step: "readLoop bytes remaining pos partialLine lines =
          readLoop bytes (remaining - ?readSize) (pos + ?readSize)
            (last (split_on 0x0A (partialLine @ ?chunk)))
            (lines @ filter nonBlank (butlast (split_on 0x0A (partialLine @ ?chunk))))"
    proof -
      have mn: "(min CHUNK_SIZE remaining = 0) = False" "(0 < remaining) = True"
        using rs False by simp_all
      show ?thesis
        by (subst readLoop.simps) (simp only: Let_def lb mn if_True if_False)
    qed
    show ?thesis
      unfolding step ih dc
      using butlast_split_on_append [of "0x0A" "partialLine @ ?chunk" "decodeChunks CHUNK_SIZE ?rest"]
        last_split_on_append [of "0x0A" "partialLine @ ?chunk" "decodeChunks CHUNK_SIZE ?rest"]
      by simp
  qed
qed

lemma filter_butlast_last:
  "xs \<noteq> [] \<Longrightarrow>
   filter P xs = (if P (last xs) then filter P (butlast xs) @ [last xs] else filter P (butlast xs))"
  by (induction xs rule: rev_induct) simp_all

lemma readNewLines_eq:
  assumes "P < length bytes"
  shows "readNewLines (Some bytes) P =
           (filter nonBlank (split_on 0x0A (decodeChunks CHUNK_SIZE (drop P bytes))), [])"
proof -
  let ?S = "split_on 0x0A (decodeChunks CHUNK_SIZE (drop P bytes))"
  have r: "readLoop bytes (length bytes - P) P [] [] = (filter nonBlank (butlast ?S), last ?S)"
    using readLoop_eq [of P "length bytes - P" bytes "[]" "[]"] assms by simp
  have ne: "?S \<noteq> []" by simp
  have e: "filter nonBlank ?S =
      (if nonBlank (last ?S) then filter nonBlank (butlast ?S) @ [last ?S] else filter nonBlank (butlast ?S))"
    using ne by (rule filter_butlast_last)
  have "readNewLines (Some bytes) P =
          (if nonBlank (last ?S) then filter nonBlank (butlast ?S) @ [last ?S] else filter nonBlank (butlast ?S), [])"
    using assms r by (simp add: readNewLines_def Let_def)
  then show ?thesis
    unfolding e .
qed

lemma utf8_decode_ascii:
  assumes "list_all (\<lambda>b. b < 0x80) xs"
  shows "utf8_decode xs = xs"
  using assms by (induction xs) (simp_all add: utf8_decode.simps)

lemma decodeChunks_ascii:
  assumes "list_all (\<lambda>b. b < 0x80) xs" "0 < n"
  shows "decodeChunks n xs = xs"
  using assms
proof (induction "length xs" arbitrary: xs rule: less_induct)
  case less
  show ?case
  proof (cases "xs = []")
    case True
    then show ?thesis by (subst decodeChunks.simps) simp
  next
    case False
    have a: "list_all (\<lambda>b. b < 0x80) (take n xs)" "list_all (\<lambda>b. b < 0x80) (drop n xs)"
      using less.prems(1) by (auto simp: list_all_iff dest: in_set_takeD in_set_dropD)
    have "length (drop n xs) < length xs" using False less.prems(2) by simp
    from less.hyps [OF this a(2) less.prems(2)]
    have "decodeChunks n (drop n xs) = drop n xs" .
    then show ?thesis
      using False less.prems(2) utf8_decode_ascii [OF a(1)]
      by (subst decodeChunks.simps) simp
  qed
qed


lemma filter_split_on_records:
  "filter nonBlank (split_on 0x0A s) =
     completeRecords s @ (if nonBlank (trailingFragment s) then [trailingFragment s] else [])"
  using filter_butlast_last [of "split_on 0x0A s" nonBlank]
  by (simp add: completeRecords_def trailingFragment_def)

text \<open>
  C4 (as the code has it). For a file of size N and an offset P below N, when decoding
  the bytes from P chunk by chunk gives the text of those bytes (no multi-byte sequence
  crosses a boundary of the 8192-byte chunks; ASCII content is the plain case),
  \<^verbatim>\<open>readNewLines\<close> returns the non-blank complete newline-delimited records of that text,
  each whole, in order, wherever the chunk boundaries fall, followed by the unterminated
  trailing fragment when that is not blank; it logs nothing. From an offset at or beyond
  N it returns no line.
\<close>

theorem reader_returns_records_and_trailing_fragment:
  assumes "P < length bytes"
    and "decodeChunks CHUNK_SIZE (drop P bytes) = utf8_decode (drop P bytes)"
    and "length bytes \<le> Q"
  shows "readNewLines (Some bytes) P =
           (completeRecords (utf8_decode (drop P bytes)) @
            (if nonBlank (trailingFragment (utf8_decode (drop P bytes)))
             then [trailingFragment (utf8_decode (drop P bytes))] else []), []) \<and>
         readNewLines (Some bytes) Q = ([], [])"
proof -
  have "readNewLines (Some bytes) Q = ([], [])"
    using assms(3) by (simp add: readNewLines_def)
  then show ?thesis
    using readNewLines_eq [OF assms(1)] assms(2) filter_split_on_records by simp
qed

lemma ascii_straddling: "list_all (\<lambda>b. b < 0x80) straddlingAscii"
  by (simp add: straddlingAscii_def list_all_iff)

text \<open>C4, witness: an ASCII file of 8196 bytes whose first record ends at byte 8193.\<close>

theorem reader_returns_records_and_trailing_fragment_witness:
  "readNewLines (Some straddlingAscii) 0 =
     (completeRecords (utf8_decode (drop 0 straddlingAscii)) @
      (if nonBlank (trailingFragment (utf8_decode (drop 0 straddlingAscii)))
       then [trailingFragment (utf8_decode (drop 0 straddlingAscii))] else []), []) \<and>
   readNewLines (Some straddlingAscii) 8196 = ([], [])"
proof -
  have 1: "0 < length straddlingAscii" "length straddlingAscii \<le> 8196"
    by (simp_all add: straddlingAscii_def)
  have 2: "decodeChunks CHUNK_SIZE (drop 0 straddlingAscii) = utf8_decode (drop 0 straddlingAscii)"
    using decodeChunks_ascii [OF ascii_straddling, of CHUNK_SIZE] utf8_decode_ascii [OF ascii_straddling]
    by (simp add: CHUNK_SIZE_def)
  from reader_returns_records_and_trailing_fragment [OF 1(1) 2 1(2)] show ?thesis .
qed

lemma split_on_prefix: "s \<notin> set xs \<Longrightarrow> split_on s (xs @ s # rest) = xs # split_on s rest"
  by (induction xs) auto

lemma trim_id:
  assumes "s \<noteq> []" "\<not> isSpace (hd s)" "\<not> isSpace (last s)"
  shows "trim s = s"
proof -
  have a: "dropWhile isSpace s = s"
    using assms(1,2) by (cases s) simp_all
  have "rev s \<noteq> []" "\<not> isSpace (hd (rev s))"
    using assms(1,3) by (simp_all add: hd_rev)
  then have "dropWhile isSpace (rev s) = rev s"
    by (cases "rev s") simp_all
  then show ?thesis by (simp add: trim_def a)
qed

text \<open>The record that crosses the chunk boundary comes back whole.\<close>

lemma straddling_records:
  "completeRecords (utf8_decode straddlingAscii) = [replicate 8190 97 @ [98, 99, 100]]"
  "trailingFragment (utf8_decode straddlingAscii) = [101, 102]"
proof -
  have d: "utf8_decode straddlingAscii = (replicate 8190 97 @ [98, 99, 100]) @ 10 # [101, 102]"
    using utf8_decode_ascii [OF ascii_straddling] by (simp add: straddlingAscii_def)
  have n: "(10::nat) \<notin> set (replicate 8190 97 @ [98, 99, 100])" by simp
  have sp: "split_on 10 (utf8_decode straddlingAscii) = [replicate 8190 97 @ [98, 99, 100], [101, 102]]"
    unfolding d split_on_prefix [OF n] by simp
  have nb: "nonBlank (replicate 8190 97 @ [98, 99, 100])"
  proof -
    have "replicate 8190 (97::nat) = 97 # replicate 8189 97"
      by (simp add: replicate_Suc [symmetric] del: replicate_Suc)
    then have h: "hd (replicate 8190 97 @ [98, 99, 100]) = (97::nat)" by simp
    have "trim (replicate 8190 97 @ [98, 99, 100]) = replicate 8190 97 @ [98, 99, 100]"
      by (rule trim_id) (simp_all add: h isSpace_def isLineTerminator_def)
    then show ?thesis by (simp add: nonBlank_def)
  qed
  show "completeRecords (utf8_decode straddlingAscii) = [replicate 8190 97 @ [98, 99, 100]]"
    using nb by (simp add: completeRecords_def sp)
  show "trailingFragment (utf8_decode straddlingAscii) = [101, 102]"
    by (simp add: trailingFragment_def sp)
qed

text \<open>C4, counterexample to the claim as stated: the file \<^verbatim>\<open>ab\<close> holds no complete
  newline-delimited record, and the reader returns the line \<^verbatim>\<open>ab\<close>.\<close>

theorem reader_emits_unterminated_line_counterexample:
  "fst (readNewLines (Some [97, 98]) 0) = [[97, 98]] \<and> completeRecords (utf8_decode (drop 0 [97, 98])) = []"
proof -
  have a: "list_all (\<lambda>b. b < 0x80) [97, 98 :: nat]" by simp
  have d: "decodeChunks CHUNK_SIZE [97, 98] = [97, 98]"
    using decodeChunks_ascii [OF a, of CHUNK_SIZE] by (simp add: CHUNK_SIZE_def)
  have "readNewLines (Some [97, 98]) 0 = (filter nonBlank (split_on 0x0A [97, 98]), [])"
    using readNewLines_eq [of 0 "[97, 98]"] d by simp
  moreover have "utf8_decode [97, 98] = [97, 98]"
    using utf8_decode_ascii [OF a] .
  ultimately show ?thesis
    by (simp add: completeRecords_def nonBlank_def trim_def isSpace_def isLineTerminator_def)
qed

lemma utf8_decode_ascii_prefix: "utf8_decode (replicate n 97 @ xs) = replicate n 97 @ utf8_decode xs"
  by (induction n) (simp_all add: utf8_decode.simps)

text \<open>
  A character whose bytes cross the chunk boundary: the three bytes of U+4E2D start at
  byte 8191, the first chunk ends inside the character, and the line comes back with
  three replacement characters in its place.
\<close>

lemma reader_breaks_straddling_character:
  "fst (readNewLines (Some straddlingCharacter) 0) = [replicate 8191 97 @ [0xFFFD, 0xFFFD, 0xFFFD]]"
  "utf8_decode straddlingCharacter = replicate 8191 97 @ [0x4E2D, 10]"
proof -
  show "utf8_decode straddlingCharacter = replicate 8191 97 @ [0x4E2D, 10]"
    by (simp add: straddlingCharacter_def utf8_decode_ascii_prefix utf8_decode.simps isCont_def)
  have l: "0 < length straddlingCharacter" by (simp add: straddlingCharacter_def)
  have t: "take CHUNK_SIZE straddlingCharacter = replicate 8191 97 @ [0xE4]"
    "drop CHUNK_SIZE straddlingCharacter = [0xB8, 0xAD, 10]"
    by (simp_all add: straddlingCharacter_def CHUNK_SIZE_def)
  have ne: "straddlingCharacter \<noteq> []" using l by auto
  have cs: "CHUNK_SIZE \<noteq> 0" by (simp add: CHUNK_SIZE_def)
  have d2: "decodeChunks CHUNK_SIZE [0xB8, 0xAD, 10] = [0xFFFD, 0xFFFD, 10]"
    using cs
    by (subst decodeChunks.simps, subst decodeChunks.simps)
       (simp add: utf8_decode.simps CHUNK_SIZE_def)
  have d: "decodeChunks CHUNK_SIZE straddlingCharacter =
           (replicate 8191 97 @ [0xFFFD, 0xFFFD, 0xFFFD]) @ 10 # []"
    using ne cs
    by (subst decodeChunks.simps) (simp add: t d2 utf8_decode_ascii_prefix utf8_decode.simps)
  have n: "(10::nat) \<notin> set (replicate 8191 97 @ [0xFFFD, 0xFFFD, 0xFFFD])" by simp
  have sp: "split_on 10 (decodeChunks CHUNK_SIZE straddlingCharacter) =
            [replicate 8191 97 @ [0xFFFD, 0xFFFD, 0xFFFD], []]"
    unfolding d split_on_prefix [OF n] by simp
  have nb: "nonBlank (replicate 8191 97 @ [0xFFFD, 0xFFFD, 0xFFFD])"
  proof -
    have "replicate 8191 (97::nat) = 97 # replicate 8190 97"
      by (simp add: replicate_Suc [symmetric] del: replicate_Suc)
    then have h: "hd (replicate 8191 97 @ [0xFFFD, 0xFFFD, 0xFFFD]) = (97::nat)" by simp
    have "trim (replicate 8191 97 @ [0xFFFD, 0xFFFD, 0xFFFD]) = replicate 8191 97 @ [0xFFFD, 0xFFFD, 0xFFFD]"
      by (rule trim_id) (simp_all add: h isSpace_def isLineTerminator_def)
    then show ?thesis by (simp add: nonBlank_def)
  qed
  have nb0: "\<not> nonBlank []" by (simp add: nonBlank_def trim_def)
  show "fst (readNewLines (Some straddlingCharacter) 0) = [replicate 8191 97 @ [0xFFFD, 0xFFFD, 0xFFFD]]"
    using readNewLines_eq [OF l] sp nb nb0 by simp
qed

subsection \<open>The unterminated end of a file\<close>

lemma processFile_first_read:
  assumes "map_of (watchedFiles m) filePath = Some fs"
  shows "hd (snd (processFile env filePath m)) = ReadNewLines filePath (position fs)"
  using assms by (simp add: processFile_def split: prod.splits option.splits)

text \<open>
  C5 (as the code has it). Nothing is held back for a later cycle. When the bytes from
  the offset end in a non-blank unterminated fragment, \<^verbatim>\<open>readNewLines\<close> returns that
  fragment as the last line of the same read, and \<^verbatim>\<open>processFile\<close> moves the watched
  offset and the checkpointed offset of the file to the size \<open>sz\<close> found by the stat after
  processing; for a file that only grows this is at or beyond the end of the bytes read.
  The next cycle reads from \<open>sz\<close> and nowhere else: what it returns are the non-blank
  segments of the bytes from \<open>sz\<close> on, split at line feeds. So what is appended to the
  fragment after the stat comes back as a line of its own, and what was appended between
  the read and the stat is never read.
\<close>

theorem trailing_fragment_is_emitted_at_once:
  assumes "P < length bytes"
    and "decodeChunks CHUNK_SIZE (drop P bytes) = utf8_decode (drop P bytes)"
    and "nonBlank (trailingFragment (utf8_decode (drop P bytes)))"
    and "map_of (watchedFiles m) filePath = Some fs" and "position fs = P"
    and "fileAtRead env filePath = Some bytes" and "statAfter env filePath = Some (sz, mt)"
    and "length bytes \<le> sz"
    and "fileAtRead env2 filePath = Some bytes2" and "sz < length bytes2"
    and "decodeChunks CHUNK_SIZE (drop sz bytes2) = utf8_decode (drop sz bytes2)"
  shows "fst (readNewLines (Some bytes) P) \<noteq> [] \<and>
         last (fst (readNewLines (Some bytes) P)) = trailingFragment (utf8_decode (drop P bytes)) \<and>
         map_option position (map_of (watchedFiles (fst (processFile env filePath m))) filePath) = Some sz \<and>
         map_option position
           (getFilePosition (fileSessionIdOf m filePath) filePath
              (stateStore (fst (processFile env filePath m)))) = Some sz \<and>
         P + length (drop P bytes) \<le> sz \<and>
         hd (snd (processFile env2 filePath (fst (processFile env filePath m)))) = ReadNewLines filePath sz \<and>
         readNewLines (fileAtRead env2 filePath) sz =
           (completeRecords (utf8_decode (drop sz bytes2)) @
            (if nonBlank (trailingFragment (utf8_decode (drop sz bytes2)))
             then [trailingFragment (utf8_decode (drop sz bytes2))] else []), [])"
proof -
  let ?t = "utf8_decode (drop P bytes)"
  have r: "readNewLines (Some bytes) P = (completeRecords ?t @ [trailingFragment ?t], [])"
    using readNewLines_eq [OF assms(1)] assms(2,3) filter_split_on_records [of ?t] by simp
  obtain m1 evs1 where p: "processLines env (completeRecords ?t @ [trailingFragment ?t]) m = (m1, evs1)"
    by (cases "processLines env (completeRecords ?t @ [trailingFragment ?t]) m")
  have res: "fst (processFile env filePath m) =
        m1\<lparr>watchedFiles := AList.update filePath (fs\<lparr>position := sz, lastSize := sz\<rparr>) (watchedFiles m1),
           stateStore := setFilePosition (fileSessionIdOf m filePath) filePath sz sz mt (stateStore m1)\<rparr>"
    using assms(4,5,6,7) r p by (simp add: processFile_def)
  have a: "fst (readNewLines (Some bytes) P) \<noteq> []"
    "last (fst (readNewLines (Some bytes) P)) = trailingFragment ?t"
    using r by simp_all
  have b: "map_option position (map_of (watchedFiles (fst (processFile env filePath m))) filePath) = Some sz"
    "map_option position
           (getFilePosition (fileSessionIdOf m filePath) filePath
              (stateStore (fst (processFile env filePath m)))) = Some sz"
    unfolding res by (simp_all add: update_conv' getFilePosition_set)
  have c: "P + length (drop P bytes) \<le> sz"
    using assms(1,8) by simp
  have w: "map_of (watchedFiles (fst (processFile env filePath m))) filePath =
             Some (fs\<lparr>position := sz, lastSize := sz\<rparr>)"
    unfolding res by (simp add: update_conv')
  have d: "hd (snd (processFile env2 filePath (fst (processFile env filePath m)))) = ReadNewLines filePath sz"
    using processFile_first_read [OF w] by simp
  have e: "readNewLines (fileAtRead env2 filePath) sz =
           (completeRecords (utf8_decode (drop sz bytes2)) @
            (if nonBlank (trailingFragment (utf8_decode (drop sz bytes2)))
             then [trailingFragment (utf8_decode (drop sz bytes2))] else []), [])"
    unfolding assms(9) readNewLines_eq [OF assms(10)] assms(11)
    using filter_split_on_records [of "utf8_decode (drop sz bytes2)"] by simp
  from a b c d e show ?thesis by blast
qed

text \<open>C5, witness: the file holds \<^verbatim>\<open>ab\<close> with no line feed when it is read from 0 and has
  5 bytes at the stat; one cycle later it holds \<^verbatim>\<open>abcd\<close>, a line feed and \<^verbatim>\<open>ef\<close>.\<close>

theorem trailing_fragment_is_emitted_at_once_witness:
  "fst (readNewLines (Some [97, 98]) 0) \<noteq> [] \<and>
   last (fst (readNewLines (Some [97, 98]) 0)) = trailingFragment (utf8_decode (drop 0 [97, 98])) \<and>
   map_option position (map_of (watchedFiles (fst (processFile envRacing1 ''/p/A.jsonl'' freshWatch))) ''/p/A.jsonl'') = Some 5 \<and>
   map_option position
     (getFilePosition (fileSessionIdOf freshWatch ''/p/A.jsonl'') ''/p/A.jsonl''
        (stateStore (fst (processFile envRacing1 ''/p/A.jsonl'' freshWatch)))) = Some 5 \<and>
   0 + length (drop 0 [97, 98 :: nat]) \<le> (5 :: nat) \<and>
   hd (snd (processFile envRacing2 ''/p/A.jsonl'' (fst (processFile envRacing1 ''/p/A.jsonl'' freshWatch)))) =
     ReadNewLines ''/p/A.jsonl'' 5 \<and>
   readNewLines (fileAtRead envRacing2 ''/p/A.jsonl'') 5 =
     (completeRecords (utf8_decode (drop 5 [97, 98, 99, 100, 10, 101, 102])) @
      (if nonBlank (trailingFragment (utf8_decode (drop 5 [97, 98, 99, 100, 10, 101, 102])))
       then [trailingFragment (utf8_decode (drop 5 [97, 98, 99, 100, 10, 101, 102]))] else []), [])"
proof -
  have a: "list_all (\<lambda>b. b < 0x80) [97, 98 :: nat]" by simp
  have 1: "0 < length [97, 98 :: nat]" by simp
  have 2: "decodeChunks CHUNK_SIZE (drop 0 [97, 98]) = utf8_decode (drop 0 [97, 98])"
    using decodeChunks_ascii [OF a, of CHUNK_SIZE] utf8_decode_ascii [OF a] by (simp add: CHUNK_SIZE_def)
  have 3: "nonBlank (trailingFragment (utf8_decode (drop 0 [97, 98])))"
    using utf8_decode_ascii [OF a]
    by (simp add: trailingFragment_def nonBlank_def trim_def isSpace_def isLineTerminator_def)
  have 4: "map_of (watchedFiles freshWatch) ''/p/A.jsonl'' =
             Some \<lparr>position = 0, lastSize = 0, mtime = None, sessionId = None\<rparr>"
    by (simp add: freshWatch_def newMonitor_def)
  have 5: "position \<lparr>position = 0, lastSize = 0, mtime = None, sessionId = None\<rparr> = 0" by simp
  have 6: "fileAtRead envRacing1 ''/p/A.jsonl'' = Some [97, 98]"
    "statAfter envRacing1 ''/p/A.jsonl'' = Some (5, 1)"
    by (simp_all add: envRacing1_def)
  have 7: "length [97, 98 :: nat] \<le> 5" by simp
  have 8: "fileAtRead envRacing2 ''/p/A.jsonl'' = Some [97, 98, 99, 100, 10, 101, 102]"
    by (simp add: envRacing2_def)
  have 9: "5 < length [97, 98, 99, 100, 10, 101, 102 :: nat]" by simp
  have b: "list_all (\<lambda>b. b < 0x80) [101, 102 :: nat]" by simp
  have 10: "decodeChunks CHUNK_SIZE (drop 5 [97, 98, 99, 100, 10, 101, 102]) =
            utf8_decode (drop 5 [97, 98, 99, 100, 10, 101, 102])"
    using decodeChunks_ascii [OF b, of CHUNK_SIZE] utf8_decode_ascii [OF b] by (simp add: CHUNK_SIZE_def)
  from trailing_fragment_is_emitted_at_once [OF 1 2 3 4 5 6 7 8 9 10] show ?thesis .
qed

text \<open>What the second read of the witness returns: \<^verbatim>\<open>ef\<close>. The bytes \<^verbatim>\<open>cd\<close> and the line
  feed, written between the read and the stat of the first cycle, are in no line of
  either read.\<close>

lemma bytes_written_before_the_stat_are_skipped:
  "fst (readNewLines (fileAtRead envRacing1 ''/p/A.jsonl'') 0) = [[97, 98]] \<and>
   fst (readNewLines (fileAtRead envRacing2 ''/p/A.jsonl'') 5) = [[101, 102]]"
proof -
  have a: "list_all (\<lambda>b. b < 0x80) [97, 98 :: nat]" by simp
  have d: "decodeChunks CHUNK_SIZE [97, 98] = [97, 98]"
    using decodeChunks_ascii [OF a, of CHUNK_SIZE] by (simp add: CHUNK_SIZE_def)
  have r1: "readNewLines (Some [97, 98]) 0 = ([[97, 98]], [])"
    using readNewLines_eq [of 0 "[97, 98]"] d
    by (simp add: nonBlank_def trim_def isSpace_def isLineTerminator_def)
  have a2: "list_all (\<lambda>b. b < 0x80) [101, 102 :: nat]" by simp
  have d2: "decodeChunks CHUNK_SIZE [101, 102] = [101, 102]"
    using decodeChunks_ascii [OF a2, of CHUNK_SIZE] by (simp add: CHUNK_SIZE_def)
  have r2: "readNewLines (Some [97, 98, 99, 100, 10, 101, 102]) 5 = ([[101, 102]], [])"
    using readNewLines_eq [of 5 "[97, 98, 99, 100, 10, 101, 102]"] d2
    by (simp add: nonBlank_def trim_def isSpace_def isLineTerminator_def)
  show ?thesis using r1 r2 by (simp add: envRacing1_def envRacing2_def)
qed

text \<open>
  C5, counterexample to the claim as stated: a final line that is still growing. The
  first cycle finds \<^verbatim>\<open>ab\<close>, emits it and moves the offset to 2; when the line has grown
  to \<^verbatim>\<open>abcd\<close> and its line feed, the read from 2 gives \<^verbatim>\<open>cd\<close>: the line is handed
  over in two pieces, never whole.
\<close>

theorem growing_line_counterexample:
  "fst (readNewLines (fileAtRead envGrowing1 ''/p/A.jsonl'') 0) = [[97, 98]] \<and>
   map_option position
     (map_of (watchedFiles (fst (processFile envGrowing1 ''/p/A.jsonl'' freshWatch))) ''/p/A.jsonl'') = Some 2 \<and>
   fst (readNewLines (fileAtRead envGrowing2 ''/p/A.jsonl'') 2) = [[99, 100]]"
proof -
  have a: "list_all (\<lambda>b. b < 0x80) [97, 98 :: nat]" by simp
  have d: "decodeChunks CHUNK_SIZE [97, 98] = [97, 98]"
    using decodeChunks_ascii [OF a, of CHUNK_SIZE] by (simp add: CHUNK_SIZE_def)
  have r1: "readNewLines (Some [97, 98]) 0 = ([[97, 98]], [])"
    using readNewLines_eq [of 0 "[97, 98]"] d
    by (simp add: nonBlank_def trim_def isSpace_def isLineTerminator_def)
  have a2: "list_all (\<lambda>b. b < 0x80) [99, 100, 10 :: nat]" by simp
  have d2: "decodeChunks CHUNK_SIZE [99, 100, 10] = [99, 100, 10]"
    using decodeChunks_ascii [OF a2, of CHUNK_SIZE] by (simp add: CHUNK_SIZE_def)
  have r2: "readNewLines (Some [97, 98, 99, 100, 10]) 2 = ([[99, 100]], [])"
    using readNewLines_eq [of 2 "[97, 98, 99, 100, 10]"] d2
    by (simp add: nonBlank_def trim_def isSpace_def isLineTerminator_def)
  have p: "map_option position
     (map_of (watchedFiles (fst (processFile envGrowing1 ''/p/A.jsonl'' freshWatch))) ''/p/A.jsonl'') = Some 2"
    by (simp add: processFile_def envGrowing1_def emptyEnv_def freshWatch_def newMonitor_def r1
        processLine_def update_conv')
  show ?thesis
    using r1 r2 p by (simp add: envGrowing1_def envGrowing2_def)
qed

subsection \<open>The plan prompt on the terminal\<close>

lemma handleExitPlanMode_sends:
  "handleInteraction (Some ms) cb home rp (ExitPlanMode q p) =
     snd (loadPlan home rp p) @
     SendText (planMessage q p (fst (loadPlan home rp p))) (sendText ms (planMessage q p (fst (loadPlan home rp p)))) #
     (if sendText ms (planMessage q p (fst (loadPlan home rp p))) = SendThrew then [Log Error]
      else notifyCallback cb (ExitPlanMode q p))"
  by (cases "loadPlan home rp p") (simp add: handleInteraction_def handleExitPlanMode_def Let_def)

lemma handleExitPlanMode_one_send:
  "sendAttempts (handleInteraction (Some ms) cb home rp (ExitPlanMode q p)) = 1"
  unfolding handleExitPlanMode_sends using loadPlan_no_send [of home rp p] by simp

text \<open>The message of the plan notification, piece by piece.\<close>

lemma planMessage_pieces:
  "planMessage q p loaded =
     lit_plan_icon @ pq_header q @ asc ''**'' @ [0x0A, 0x0A] @
     (if orEmpty loaded \<noteq> [] then
        lit_plan_content_head @ orEmpty p @ asc ''`):'' @ [0x0A, 0x0A] @
        take 5000 (orEmpty loaded) @
        (if 5000 < length (orEmpty loaded)
         then lit_plan_truncated @ showNat (length (orEmpty loaded)) @ lit_plan_chars else []) @
        [0x0A, 0x0A]
      else if truthy p then lit_plan_file @ orEmpty p @ asc ''`'' @ [0x0A, 0x0A]
      else []) @
     lit_plan_choose @ planOptionLines (pq_options q) @ lit_plan_reply"
  by (cases loaded) (simp_all add: planMessage_def truncatePlan_def maxPlanLength_def truthy_def orEmpty_def)

lemma checkPlanMode_ignores_guard:
  "snd (checkPlanMode env (m\<lparr>processedMessages := pm, stateStore := st\<rparr>)) = snd (checkPlanMode env m)"
  by (simp add: checkPlanMode_def Let_def split: option.splits)

lemma checkPlanMode_keeps_guard:
  "processedMessages (fst (checkPlanMode env m)) = processedMessages m \<and>
   stateStore (fst (checkPlanMode env m)) = stateStore m"
  by (simp add: checkPlanMode_def Let_def split: option.splits)

text \<open>What \<^verbatim>\<open>checkPlanMode\<close> does on a capture that shows the prompt.\<close>

lemma checkPlanMode_on_prompt:
  assumes "tmuxCommander m" and "messenger m = Some ms"
    and "tmuxCapture env = Some c" and "trim c \<noteq> []" and "isExitPlanMode c"
  shows "checkPlanMode env m =
      (if lastNotifiedPlanModeContent m = Some (hashPlanModeContent c) \<and>
                   (case lastPlanModeNotifyTime m of None \<Rightarrow> False
                    | Some t \<Rightarrow> t \<noteq> 0 \<and> now env - t < 300000)
       then (m, [])
       else (m\<lparr>lastNotifiedPlanModeContent := Some (hashPlanModeContent c), lastPlanModeNotifyTime := Some (now env)\<rparr>,
             handleInteraction (Some ms) (onInteraction m) (homeDir env) (readPlan env)
               (ExitPlanMode \<lparr>pq_header = lit_plan_header, pq_text = lit_plan_text,
                   pq_options = concat (map optionsOfLine (split_on 0x0A c))\<rparr>
                  (map_option trim (planFileMatch c)))))"
proof -
  have c0: "c \<noteq> []" using assms(4) by (auto simp: trim_def)
  have p: "parseExitPlanMode c =
     Some (ExitPlanMode \<lparr>pq_header = lit_plan_header, pq_text = lit_plan_text,
                   pq_options = concat (map optionsOfLine (split_on 0x0A c))\<rparr>
            (map_option trim (planFileMatch c)))"
    by (simp add: parseExitPlanMode_def split: option.splits)
  have o: "(Some (hashPlanModeContent c) = lastNotifiedPlanModeContent m) =
           (lastNotifiedPlanModeContent m = Some (hashPlanModeContent c))"
    by auto
  have t: "length (trim c) \<noteq> 0" using assms(4) by simp
  show ?thesis
    unfolding checkPlanMode_def Let_def planModeCooldown_def
    using assms(1,2,3,5) c0 t by (simp add: p o)
qed

text \<open>
  C9. On a monitor with a terminal and a messenger, when the capture \<open>c\<close> is not blank
  and shows the plan prompt (both phrases of the prompt and a numbered option line),
  \<^verbatim>\<open>checkPlanMode\<close> does one of two things. If the option lines of the capture, joined by
  a bar, equal the hash notified last and that notification is less than 300000 ms old,
  nothing is sent and nothing changes. Otherwise the plan document named in the capture
  is loaded and one text message is sent: the header, then the document under its path,
  cut to its first 5000 units and followed by a note with its length when it was longer
  (or the path alone when the document could not be loaded), then the parsed options,
  one per line, and the reply hint; the callback is notified unless the send threw, and
  the hash and the time are recorded. After such a notification, a capture \<open>c2\<close> that shows
  the prompt with the same option lines, whatever else it shows, sends nothing for
  300000 ms and is notified again once they have passed. The effects do not depend on the
  seen-identifier cache or the checkpoint, and neither is changed.
\<close>

theorem plan_prompt_notified_once_per_cooldown:
  assumes "tmuxCommander m" and "messenger m = Some ms"
    and "tmuxCapture env = Some c" and "trim c \<noteq> []" and "isExitPlanMode c"
    and "tmuxCapture env2 = Some c2" and "trim c2 \<noteq> []" and "isExitPlanMode c2"
    and "filter (\<lambda>l. cursorOptionAt l \<or> yesOptionAt (asc ''Yes'') l) (split_on 0x0A c2) =
         filter (\<lambda>l. cursorOptionAt l \<or> yesOptionAt (asc ''Yes'') l) (split_on 0x0A c)"
    and "now env \<noteq> 0"
  shows "(let h = joinWith (asc ''|'')
                    (filter (\<lambda>l. cursorOptionAt l \<or> yesOptionAt (asc ''Yes'') l) (split_on 0x0A c));
              opts = concat (map optionsOfLine (split_on 0x0A c));
              p = map_option trim (planFileMatch c);
              loaded = loadPlan (homeDir env) (readPlan env) p;
              pc = orEmpty (fst loaded);
              msg = lit_plan_icon @ lit_plan_header @ asc ''**'' @ [0x0A, 0x0A] @
                    (if pc \<noteq> [] then
                       lit_plan_content_head @ orEmpty p @ asc ''`):'' @ [0x0A, 0x0A] @
                       take 5000 pc @
                       (if 5000 < length pc then lit_plan_truncated @ showNat (length pc) @ lit_plan_chars
                        else []) @
                       [0x0A, 0x0A]
                     else if truthy p then lit_plan_file @ orEmpty p @ asc ''`'' @ [0x0A, 0x0A]
                     else []) @
                    lit_plan_choose @ planOptionLines opts @ lit_plan_reply;
              notified = m\<lparr>lastNotifiedPlanModeContent := Some h, lastPlanModeNotifyTime := Some (now env)\<rparr>
          in checkPlanMode env m =
               (if lastNotifiedPlanModeContent m = Some h \<and>
                   (case lastPlanModeNotifyTime m of None \<Rightarrow> False
                    | Some t \<Rightarrow> t \<noteq> 0 \<and> now env - t < 300000)
                then (m, [])
                else (notified,
                      snd loaded @ SendText msg (sendText ms msg) #
                      (if sendText ms msg = SendThrew then [Log Error]
                       else notifyCallback (onInteraction m)
                              (ExitPlanMode \<lparr>pq_header = lit_plan_header, pq_text = lit_plan_text,
                                             pq_options = opts\<rparr> p)))) \<and>
             (if now env2 - now env < 300000 then checkPlanMode env2 notified = (notified, [])
              else sendAttempts (snd (checkPlanMode env2 notified)) = 1 \<and>
                   fst (checkPlanMode env2 notified) = notified\<lparr>lastPlanModeNotifyTime := Some (now env2)\<rparr>)) \<and>
         snd (checkPlanMode env (m\<lparr>processedMessages := pm, stateStore := st\<rparr>)) = snd (checkPlanMode env m) \<and>
         processedMessages (fst (checkPlanMode env m)) = processedMessages m \<and>
         stateStore (fst (checkPlanMode env m)) = stateStore m"
proof -
  let ?h = "joinWith (asc ''|'')
              (filter (\<lambda>l. cursorOptionAt l \<or> yesOptionAt (asc ''Yes'') l) (split_on 0x0A c))"
  let ?n = "m\<lparr>lastNotifiedPlanModeContent := Some ?h, lastPlanModeNotifyTime := Some (now env)\<rparr>"
  have h: "hashPlanModeContent c = ?h" "hashPlanModeContent c2 = ?h"
    using assms(9) by (simp_all add: hashPlanModeContent_def)
  have 1: "checkPlanMode env m =
      (if lastNotifiedPlanModeContent m = Some ?h \<and>
                   (case lastPlanModeNotifyTime m of None \<Rightarrow> False
                    | Some t \<Rightarrow> t \<noteq> 0 \<and> now env - t < 300000)
       then (m, [])
       else (?n,
             handleInteraction (Some ms) (onInteraction m) (homeDir env) (readPlan env)
               (ExitPlanMode \<lparr>pq_header = lit_plan_header, pq_text = lit_plan_text,
                   pq_options = concat (map optionsOfLine (split_on 0x0A c))\<rparr>
                  (map_option trim (planFileMatch c)))))"
    using checkPlanMode_on_prompt [OF assms(1-5)] unfolding h(1) .
  have n: "tmuxCommander ?n" "messenger ?n = Some ms"
    using assms(1,2) by simp_all
  have 2: "checkPlanMode env2 ?n =
      (if now env2 - now env < 300000 then (?n, [])
       else (?n\<lparr>lastPlanModeNotifyTime := Some (now env2)\<rparr>,
             handleInteraction (Some ms) (onInteraction m) (homeDir env2) (readPlan env2)
               (ExitPlanMode \<lparr>pq_header = lit_plan_header, pq_text = lit_plan_text,
                   pq_options = concat (map optionsOfLine (split_on 0x0A c2))\<rparr>
                  (map_option trim (planFileMatch c2)))))"
    using checkPlanMode_on_prompt [OF n assms(6-8)] assms(10) unfolding h(2) by simp
  have 3: "if now env2 - now env < 300000 then checkPlanMode env2 ?n = (?n, [])
           else sendAttempts (snd (checkPlanMode env2 ?n)) = 1 \<and>
                fst (checkPlanMode env2 ?n) = ?n\<lparr>lastPlanModeNotifyTime := Some (now env2)\<rparr>"
    unfolding 2 by (simp add: handleExitPlanMode_one_send)
  show ?thesis
    unfolding Let_def
    using 1 [unfolded handleExitPlanMode_sends planMessage_pieces] 3
      checkPlanMode_ignores_guard [where env = env and m = m and pm = pm and st = st]
      checkPlanMode_keeps_guard [of env m]
    by simp
qed

lemma planCapture_units:
  "planCapture =
     [67, 108, 97, 117, 100, 101, 32, 104, 97, 115, 32, 119, 114, 105, 116, 116, 101, 110, 32, 117, 112,
      32, 97, 32, 112, 108, 97, 110, 10,
      87, 111, 117, 108, 100, 32, 121, 111, 117, 32, 108, 105, 107, 101, 32, 116, 111, 32, 112, 114, 111,
      99, 101, 101, 100, 63, 10,
      32, 10095, 32, 49, 46, 32, 89, 101, 115, 44, 32, 103, 111, 10,
      32, 32, 32, 50, 46, 32, 78, 111, 10,
      99, 116, 114, 108, 45, 103, 32, 116, 111, 32, 101, 100, 105, 116, 32, 105, 110, 32, 86, 105, 109,
      32, 183, 32, 126, 47, 112, 46, 109, 100]"
  by (simp add: planCapture_def asc_def)

lemma planCapture_nonblank: "trim planCapture \<noteq> []"
  unfolding planCapture_units by (simp add: trim_def isSpace_def isLineTerminator_def)

lemma planCapture_phrases:
  "str_includes (asc ''written up a plan'') planCapture"
  "str_includes (asc ''Would you like to proceed'') planCapture"
  unfolding planCapture_units by (simp_all add: asc_def)


lemma planCapture_detected: "isExitPlanMode planCapture"
proof -
  have "atLineStart cursorOptionAt planCapture"
    unfolding planCapture_units
    by (simp add: atLineStart_def cursorOptionAt_def numberDot_def isSpace_def isLineTerminator_def
        isDigit_def cursorMark_def)
  moreover have "planCapture \<noteq> []" unfolding planCapture_units by simp
  ultimately show ?thesis using planCapture_phrases by (simp add: isExitPlanMode_def)
qed

lemma planCapture_lines:
  "split_on 0x0A planCapture =
     [asc ''Claude has written up a plan'', asc ''Would you like to proceed?'',
      [0x20, 0x276F] @ asc '' 1. Yes, go'', asc ''   2. No'',
      asc ''ctrl-g to edit in Vim '' @ [0xB7] @ asc '' ~/p.md'']"
  unfolding planCapture_units by (simp add: asc_def)

lemma no_cursor: "cursorMark \<notin> set s \<Longrightarrow> matchWithCursor s = None"
  by (induction s) auto

lemma planCapture_options:
  "concat (map optionsOfLine (split_on 0x0A planCapture)) =
     [\<lparr>num = 1, plabel = asc ''Yes, go''\<rparr>, \<lparr>num = 2, plabel = asc ''No''\<rparr>]"
proof -
  have 1: "optionsOfLine (asc ''Claude has written up a plan'') = []"
    by (simp add: optionsOfLine_def no_cursor matchWithoutCursor_def asc_def cursorMark_def isSpace_def
        isLineTerminator_def)
  have 2: "optionsOfLine (asc ''Would you like to proceed?'') = []"
    by (simp add: optionsOfLine_def no_cursor matchWithoutCursor_def asc_def cursorMark_def isSpace_def
        isLineTerminator_def)
  have 3: "optionsOfLine ([0x20, 0x276F] @ asc '' 1. Yes, go'') = [\<lparr>num = 1, plabel = asc ''Yes, go''\<rparr>]"
    by (simp add: optionsOfLine_def asc_def cursorMark_def isSpace_def isLineTerminator_def
        optionAfter_def numberDot_def isDigit_def optionTail_def optionOfMatch_def trim_def parseInt_def)
  have 4: "optionsOfLine (asc ''   2. No'') = [\<lparr>num = 2, plabel = asc ''No''\<rparr>]"
    by (simp add: optionsOfLine_def no_cursor matchWithoutCursor_def asc_def cursorMark_def isSpace_def
        isLineTerminator_def optionAfter_def numberDot_def isDigit_def optionTail_def optionOfMatch_def
        trim_def parseInt_def)
  have 5: "optionsOfLine (asc ''ctrl-g to edit in Vim '' @ [0xB7] @ asc '' ~/p.md'') = []"
    by (simp add: optionsOfLine_def no_cursor matchWithoutCursor_def asc_def cursorMark_def isSpace_def
        isLineTerminator_def)
  show ?thesis unfolding planCapture_lines using 1 2 3 4 5 by simp
qed

lemma planFileMatch_units:
  "planFileMatch (c # cs) =
     (if prefix [99, 116, 114, 108, 45, 103, 32, 116, 111, 32, 101, 100, 105, 116, 32, 105, 110, 32, 86, 105, 109]
           (c # cs)
      then (case planPathAfter (drop 21 (c # cs)) of Some g \<Rightarrow> Some g | None \<Rightarrow> planFileMatch cs)
      else planFileMatch cs)"
proof -
  have l: "length ''ctrl-g to edit in Vim'' = 21" by simp
  have a: "asc ''ctrl-g to edit in Vim'' =
             [99, 116, 114, 108, 45, 103, 32, 116, 111, 32, 101, 100, 105, 116, 32, 105, 110, 32, 86, 105, 109]"
    by (simp add: asc_def)
  show ?thesis by (subst planFileMatch.simps) (simp only: l a)
qed

lemma planCapture_path: "map_option trim (planFileMatch planCapture) = Some (asc ''~/p.md'')"
  unfolding planCapture_units
  by (simp add: planFileMatch_units asc_def planPathAfter_def isSpace_def isLineTerminator_def trim_def
      numeral_2_eq_2 del: planFileMatch.simps(2))

lemma envPlan_loads:
  "loadPlan (homeDir envPlan) (readPlan envPlan) (Some (asc ''~/p.md'')) = (Some (replicate 5001 97), [])"
  by (simp add: loadPlan_def envPlan_def emptyEnv_def truthy_def orEmpty_def expandPlanPath_def asc_def)

lemma showNat_5001: "showNat 5001 = asc ''5001''"
  by (simp add: showNat.simps asc_def)

lemma str_includes_after: "str_includes sub c \<Longrightarrow> str_includes sub (l @ c)"
  by (induction l) simp_all

lemma afterTerminator_after:
  "isLineTerminator t \<Longrightarrow> P c \<or> afterTerminator P c \<Longrightarrow> afterTerminator P (l @ t # c)"
  by (induction l) auto

lemma prompt_under_another_line:
  assumes "isExitPlanMode c"
  shows "isExitPlanMode (l @ 0x0A # c)"
proof -
  have i: "str_includes sub c \<Longrightarrow> str_includes sub (l @ 0x0A # c)" for sub
    using str_includes_after [of sub c "l @ [0x0A]"] by simp
  have a: "atLineStart P c \<Longrightarrow> atLineStart P (l @ 0x0A # c)" for P
    using afterTerminator_after [of "0x0A" P c l] by (simp add: atLineStart_def isLineTerminator_def)
  show ?thesis
    using assms i a by (auto simp: isExitPlanMode_def Let_def split: if_splits)
qed

lemma planCaptureLater_detected: "isExitPlanMode planCaptureLater"
  using prompt_under_another_line [OF planCapture_detected, of "asc ''(esc to cancel)''"]
  by (simp add: planCaptureLater_def)

lemma planCaptureLater_nonblank: "trim planCaptureLater \<noteq> []"
  unfolding planCaptureLater_def planCapture_units
  by (simp add: trim_def isSpace_def isLineTerminator_def asc_def)

lemma planCapture_option_lines:
  "filter (\<lambda>l. cursorOptionAt l \<or> yesOptionAt (asc ''Yes'') l) (split_on 0x0A planCapture) =
     [[0x20, 0x276F] @ asc '' 1. Yes, go'']"
  unfolding planCapture_lines
  by (simp add: cursorOptionAt_def yesOptionAt_def numberDot_def isSpace_def isLineTerminator_def
      isDigit_def cursorMark_def asc_def)

lemma planCaptureLater_option_lines:
  "filter (\<lambda>l. cursorOptionAt l \<or> yesOptionAt (asc ''Yes'') l) (split_on 0x0A planCaptureLater) =
   filter (\<lambda>l. cursorOptionAt l \<or> yesOptionAt (asc ''Yes'') l) (split_on 0x0A planCapture)"
proof -
  have n: "0x0A \<notin> set (asc ''(esc to cancel)'')" by (simp add: asc_def)
  have s: "split_on 0x0A planCaptureLater = asc ''(esc to cancel)'' # split_on 0x0A planCapture"
    using split_on_prefix [OF n, of planCapture] by (simp add: planCaptureLater_def)
  show ?thesis
    unfolding s
    by (simp add: cursorOptionAt_def yesOptionAt_def numberDot_def isSpace_def isLineTerminator_def
        isDigit_def cursorMark_def asc_def)
qed

text \<open>C9, witness: the capture with two options and a plan path, on a monitor that has
  not notified yet; then the later capture of the same prompt, 98 seconds after the
  notification and 300 seconds after it.\<close>

theorem plan_prompt_notified_once_per_cooldown_witness:
  "checkPlanMode envPlan planMonitor =
     (planMonitor\<lparr>lastNotifiedPlanModeContent := Some ([0x20, 0x276F] @ asc '' 1. Yes, go''),
                  lastPlanModeNotifyTime := Some 2000\<rparr>,
      [SendText
         (lit_plan_icon @ lit_plan_header @ asc ''**'' @ [0x0A, 0x0A] @
          lit_plan_content_head @ asc ''~/p.md'' @ asc ''`):'' @ [0x0A, 0x0A] @
          replicate 5000 97 @ lit_plan_truncated @ asc ''5001'' @ lit_plan_chars @ [0x0A, 0x0A] @
          lit_plan_choose @ asc ''1. Yes, go'' @ [0x0A] @ asc ''2. No'' @ [0x0A] @ lit_plan_reply)
         SendOk]) \<and>
   checkPlanMode envPlanLater (fst (checkPlanMode envPlan planMonitor)) =
     (fst (checkPlanMode envPlan planMonitor), []) \<and>
   sendAttempts (snd (checkPlanMode envPlanMuchLater (fst (checkPlanMode envPlan planMonitor)))) = 1"
proof -
  let ?h = "[0x20, 0x276F] @ asc '' 1. Yes, go''"
  let ?n = "planMonitor\<lparr>lastNotifiedPlanModeContent := Some ?h, lastPlanModeNotifyTime := Some 2000\<rparr>"
  have a: "tmuxCommander planMonitor" "messenger planMonitor = Some workingMessenger"
    by (simp_all add: planMonitor_def newMonitor_def)
  have c: "tmuxCapture envPlan = Some planCapture" by (simp add: envPlan_def emptyEnv_def)
  have c2: "tmuxCapture envPlanLater = Some planCaptureLater"
    "tmuxCapture envPlanMuchLater = Some planCaptureLater"
    by (simp_all add: envPlanLater_def envPlanMuchLater_def)
  have n: "now envPlan = 2000" "now envPlan \<noteq> 0" "now envPlanLater = 100000" "now envPlanMuchLater = 302000"
    by (simp_all add: envPlan_def emptyEnv_def envPlanLater_def envPlanMuchLater_def)
  have f: "lastNotifiedPlanModeContent planMonitor = None" "onInteraction planMonitor = None"
    "sendText workingMessenger = (\<lambda>t. SendOk)"
    by (simp_all add: planMonitor_def newMonitor_def workingMessenger_def)
  have o: "planOptionLines [\<lparr>num = Suc 0, plabel = asc ''Yes, go''\<rparr>, \<lparr>num = 2, plabel = asc ''No''\<rparr>] =
           asc ''1. Yes, go'' @ [0x0A] @ asc ''2. No'' @ [0x0A]"
    by (simp add: showNat.simps asc_def)
  from plan_prompt_notified_once_per_cooldown
         [OF a c planCapture_nonblank planCapture_detected c2(1) planCaptureLater_nonblank
             planCaptureLater_detected planCaptureLater_option_lines n(2),
          where pm = "[]" and st = emptyStore]
  have 1: "checkPlanMode envPlan planMonitor =
     (?n,
      [SendText
         (lit_plan_icon @ lit_plan_header @ asc ''**'' @ [0x0A, 0x0A] @
          lit_plan_content_head @ asc ''~/p.md'' @ asc ''`):'' @ [0x0A, 0x0A] @
          replicate 5000 97 @ lit_plan_truncated @ asc ''5001'' @ lit_plan_chars @ [0x0A, 0x0A] @
          lit_plan_choose @ asc ''1. Yes, go'' @ [0x0A] @ asc ''2. No'' @ [0x0A] @ lit_plan_reply)
         SendOk])"
    and 2: "checkPlanMode envPlanLater ?n = (?n, [])"
    by (simp_all add: Let_def planCapture_option_lines planCapture_options planCapture_path envPlan_loads
        n f notifyCallback_def showNat_5001 o orEmpty_def truthy_def del: planOptionLines.simps)
  from plan_prompt_notified_once_per_cooldown
         [OF a c planCapture_nonblank planCapture_detected c2(2) planCaptureLater_nonblank
             planCaptureLater_detected planCaptureLater_option_lines n(2),
          where pm = "[]" and st = emptyStore]
  have 3: "sendAttempts (snd (checkPlanMode envPlanMuchLater ?n)) = 1"
    by (simp add: Let_def planCapture_option_lines n)
  from 1 2 3 show ?thesis by simp
qed

end
